theory Spec2Isabelle
  imports Main "HOL-Library.Multiset" "HOL-Library.List_Lexorder" "HOL-Library.Char_ord"
begin

section \<open>Route discovery and warm-up of next-dev-eager (main.go)\<close>

subsection \<open>The string functions of Go's \<open>strings\<close> package used by the program\<close>

text \<open>
  Go strings are byte sequences; a \<open>string\<close> here is a list of bytes. The program calls
  \<open>strings.Split\<close> and \<open>strings.Join\<close> with the one-byte separator \<open>"/"\<close> only, so the
  separator is a single character.
\<close>

definition HasPrefix :: "string \<Rightarrow> string \<Rightarrow> bool" where
  "HasPrefix s p = (length p \<le> length s \<and> take (length p) s = p)"

definition HasSuffix :: "string \<Rightarrow> string \<Rightarrow> bool" where
  "HasSuffix s p = (length p \<le> length s \<and> drop (length s - length p) s = p)"

text \<open>\<open>Split s sep\<close> cuts at every separator; it returns one piece more than there are
  separators, so the empty string gives one empty piece. The result is never empty, and
  the branch for an empty result of the recursive call is never taken.\<close>

fun Split :: "string \<Rightarrow> char \<Rightarrow> string list" where
  "Split [] sep = [[]]"
| "Split (c # cs) sep =
     (if c = sep then [] # Split cs sep
      else (case Split cs sep of
              [] \<Rightarrow> [[c]]
            | piece # pieces \<Rightarrow> (c # piece) # pieces))"

fun Join :: "string list \<Rightarrow> string \<Rightarrow> string" where
  "Join [] sep = []"
| "Join [x] sep = x"
| "Join (x # y # ys) sep = x @ sep @ Join (y # ys) sep"

subsection \<open>The walk callback of \<open>findStaticRoutes\<close>\<close>

text \<open>The four reasons for which the callback logs a line and returns without a route.\<close>

datatype skip_reason = PrivateSegment | InterceptingRoute | ParallelSlot | DynamicRoute

text \<open>
  The loop over \<open>segments\<close>, with \<open>finalSegments\<close> as accumulator. The tests are in the
  order of the source: empty, private, route group, intercepting, parallel, dynamic.
  \<open>Inl\<close> is the early \<open>return nil\<close> that skips the whole path.
\<close>

fun segmentLoop :: "string list \<Rightarrow> string list \<Rightarrow> skip_reason + string list" where
  "segmentLoop [] finalSegments = Inr finalSegments"
| "segmentLoop (segment # rest) finalSegments =
     (if segment = [] then segmentLoop rest finalSegments
      else if HasPrefix segment ''_'' then Inl PrivateSegment
      else if HasPrefix segment ''('' \<and> HasSuffix segment '')'' \<and> \<not> HasPrefix segment ''(...''
        then segmentLoop rest finalSegments
      else if segment = ''(.)'' \<or> segment = ''(..)'' \<or> segment = ''(...)''
        then Inl InterceptingRoute
      else if HasPrefix segment ''@'' then Inl ParallelSlot
      else if HasPrefix segment ''['' \<and> HasSuffix segment '']'' then Inl DynamicRoute
      else segmentLoop rest (finalSegments @ [segment]))"

definition isPageFile :: "string \<Rightarrow> bool \<Rightarrow> bool" where
  "isPageFile fileName isDir =
     (\<not> isDir \<and> HasPrefix fileName ''page.'' \<and>
      (HasSuffix fileName ''.js'' \<or> HasSuffix fileName ''.jsx'' \<or>
       HasSuffix fileName ''.ts'' \<or> HasSuffix fileName ''.tsx''))"

text \<open>\<open>route\<close> as computed from \<open>relPath\<close>, the result of \<open>filepath.Rel\<close> with forward
  slashes.\<close>

definition routeString :: "string \<Rightarrow> string" where
  "routeString relPath = (if relPath = ''.'' then ''/'' else ''/'' @ relPath)"

text \<open>From \<open>route\<close> to \<open>finalRoute\<close>, or to the reason for skipping the path.\<close>

definition pathRoute :: "string \<Rightarrow> skip_reason + string" where
  "pathRoute relPath =
     (case segmentLoop (Split (routeString relPath) CHR ''/'') [] of
        Inl reason \<Rightarrow> Inl reason
      | Inr finalSegments \<Rightarrow>
          (let finalRoute = ''/'' @ Join finalSegments ''/''
           in Inr (if finalRoute = ''//'' then ''/'' else finalRoute)))"

text \<open>
  The state the callback works on: the set \<open>routeSet\<close> (a Go map with empty values) and
  the lines written by \<open>log.Printf\<close>, each as the reason and the route it names.
\<close>

record walk_state =
  routeSet :: "string set"
  logged :: "(skip_reason \<times> string) list"

text \<open>
  The callback for an entry without error: \<open>relPath\<close> is the path of the directory that
  holds the entry, relative to the root of the walk. The callback's first test, which
  hands an error of the walk back to it, is the \<open>Inl\<close> branches of the walk below.
\<close>

definition visit :: "string \<Rightarrow> string \<Rightarrow> bool \<Rightarrow> walk_state \<Rightarrow> walk_state" where
  "visit relPath fileName isDir st =
     (if \<not> isPageFile fileName isDir then st
      else (case pathRoute relPath of
              Inl reason \<Rightarrow> st\<lparr>logged := logged st @ [(reason, routeString relPath)]\<rparr>
            | Inr finalRoute \<Rightarrow> st\<lparr>routeSet := insert finalRoute (routeSet st)\<rparr>))"

subsection \<open>The directory tree and \<open>filepath.WalkDir\<close>\<close>

text \<open>
  What the walk meets: a file (anything that is not a directory), a directory with its
  entries in the order \<open>os.ReadDir\<close> lists them, or a directory that \<open>os.ReadDir\<close> fails
  to read. The root is either missing (\<open>os.Lstat\<close> fails) or an entry.
\<close>

datatype io_error = IOError string

datatype node = File string | Dir string "node list" | Unreadable string io_error

datatype fsroot = Missing io_error | Present node

text \<open>
  \<open>here\<close> is the chain of directory names from the root of the walk to the directory
  that holds the entry; \<open>filepath.Rel\<close> of that directory is \<open>"."\<close> for the root itself.
\<close>

definition relPathOf :: "string list \<Rightarrow> string" where
  "relPathOf here = (if here = [] then ''.'' else Join here ''/'')"

text \<open>
  \<open>walkDir\<close> calls the callback on the entry, reads a directory and walks its entries in
  order. The callback returns every error it is given, so the first failure ends the
  walk with that error.
\<close>

fun walkDir :: "string list \<Rightarrow> node \<Rightarrow> walk_state \<Rightarrow> io_error + walk_state"
  and walkEntries :: "string list \<Rightarrow> node list \<Rightarrow> walk_state \<Rightarrow> io_error + walk_state"
where
  "walkDir here (File name) st = Inr (visit (relPathOf here) name False st)"
| "walkDir here (Dir name entries) st =
     walkEntries (here @ [name]) entries (visit (relPathOf here) name True st)"
| "walkDir here (Unreadable name err) st = Inl err"
| "walkEntries here [] st = Inr st"
| "walkEntries here (d1 # ds) st =
     (case walkDir here d1 st of
        Inl err \<Rightarrow> Inl err
      | Inr st' \<Rightarrow> walkEntries here ds st')"

text \<open>
  The walk from the root. The directory that holds the root lies one level above it, so
  \<open>filepath.Rel\<close> gives \<open>".."\<close> for the root entry itself.
\<close>

definition WalkDir :: "fsroot \<Rightarrow> walk_state \<Rightarrow> io_error + walk_state" where
  "WalkDir root st =
     (case root of
        Missing err \<Rightarrow> Inl err
      | Present (File name) \<Rightarrow> Inr (visit ''..'' name False st)
      | Present (Dir name entries) \<Rightarrow> walkEntries [] entries (visit ''..'' name True st)
      | Present (Unreadable name err) \<Rightarrow> Inl err)"

text \<open>
  \<open>findStaticRoutes\<close> returns the keys of \<open>routeSet\<close> as a slice, in the unspecified order
  of Go's map iteration; the model returns the set, and \<open>main\<close> takes the order as a
  parameter.
\<close>

definition findStaticRoutes :: "fsroot \<Rightarrow> io_error + string set" where
  "findStaticRoutes root =
     (case WalkDir root \<lparr>routeSet = {}, logged = []\<rparr> of
        Inl err \<Rightarrow> Inl err
      | Inr st \<Rightarrow> Inr (routeSet st))"

subsection \<open>\<open>findAppDirectory\<close>\<close>

text \<open>
  \<open>os.Stat\<close> answers with an error or with the description of the entry; the program
  looks at the error only. \<open>log.Fatalf\<close> ends the process: the \<open>Inl\<close> result.
\<close>

record file_info =
  isDirectory :: bool

fun findAppLoop :: "(string \<Rightarrow> io_error + file_info) \<Rightarrow> string list \<Rightarrow> string option" where
  "findAppLoop osStat [] = None"
| "findAppLoop osStat (dir # rest) =
     (case osStat dir of
        Inr info \<Rightarrow> Some dir
      | Inl err \<Rightarrow> findAppLoop osStat rest)"

definition possibleAppDirs :: "string list" where
  "possibleAppDirs = [''app'', ''src/app'']"

definition findAppDirectory :: "(string \<Rightarrow> io_error + file_info) \<Rightarrow> string + string" where
  "findAppDirectory osStat =
     (case findAppLoop osStat possibleAppDirs of
        Some dir \<Rightarrow> Inr dir
      | None \<Rightarrow> Inl ''Error: Could not find 'app' or 'src/app' directory.'')"

subsection \<open>The warm-up loop and \<open>main\<close>\<close>

definition baseURL :: string where
  "baseURL = ''http://localhost:3000''"

text \<open>
  What \<open>main\<close> does to the outside, in order: the lines it prints, the requests it
  sends and the pauses it makes (in seconds). The status line also shows the elapsed
  time, which the model leaves out.
\<close>

datatype event =
    LogFoundApp string
  | PrintDiscovering
  | PrintNoRoutes
  | PrintFound nat
  | PrintGet string
  | Get string
  | PrintError string
  | CloseBody
  | PrintStatus string
  | Sleep nat
  | PrintComplete

text \<open>The answer of \<open>client.Get\<close>: an error with its message, or a response with its
  status.\<close>

datatype http_result = Failed string | Response string

text \<open>
  The \<open>for\<close> loop over the sorted routes. \<open>clientGet\<close> is the network: it answers a
  request in the state \<open>w\<close> of the outside world and changes that state.
\<close>

fun warmUp :: "('w \<Rightarrow> string \<Rightarrow> http_result \<times> 'w) \<Rightarrow> string list \<Rightarrow> 'w \<Rightarrow> event list \<times> 'w" where
  "warmUp clientGet [] w = ([], w)"
| "warmUp clientGet (route # rest) w =
     (let url = baseURL @ route;
          (resp, w1) = clientGet w url;
          (later, w2) = warmUp clientGet rest w1
      in (case resp of
            Failed err \<Rightarrow> ([PrintGet url, Get url, PrintError err, Sleep 1] @ later, w2)
          | Response status \<Rightarrow>
              ([PrintGet url, Get url, CloseBody, PrintStatus status, Sleep 1] @ later, w2)))"

text \<open>
  What \<open>main\<close> takes from outside the program: the file system as \<open>os.Stat\<close> and as the
  walk see it, the order in which Go iterates over the keys of a map, \<open>sort.Slice\<close>
  (which is not stable), and the network.
\<close>

record 'w environment =
  osStat :: "string \<Rightarrow> io_error + file_info"
  fileTree :: "string \<Rightarrow> fsroot"
  mapRange :: "string set \<Rightarrow> string list"
  sortSlice :: "string list \<Rightarrow> (string \<Rightarrow> string \<Rightarrow> bool) \<Rightarrow> string list"
  clientGet :: "'w \<Rightarrow> string \<Rightarrow> http_result \<times> 'w"

datatype exit = ExitOK | ExitFatal string

definition main :: "'w environment \<Rightarrow> 'w \<Rightarrow> exit \<times> event list \<times> 'w" where
  "main env w =
     (case findAppDirectory (osStat env) of
        Inl msg \<Rightarrow> (ExitFatal msg, [], w)
      | Inr appPath \<Rightarrow>
          (case findStaticRoutes (fileTree env appPath) of
             Inl (IOError msg) \<Rightarrow>
               (ExitFatal (''Error discovering routes: '' @ msg),
                [LogFoundApp appPath, PrintDiscovering], w)
           | Inr found \<Rightarrow>
               (let routes = mapRange env found
                in if length routes = 0
                   then (ExitOK, [LogFoundApp appPath, PrintDiscovering, PrintNoRoutes], w)
                   else
                     (let sorted = sortSlice env routes (\<lambda>a b. length a < length b);
                          (evs, w') = warmUp (clientGet env) sorted w
                      in (ExitOK,
                          [LogFoundApp appPath, PrintDiscovering, PrintFound (length sorted)]
                            @ evs @ [PrintComplete],
                          w')))))"

text \<open>The contracts of the two library parts: the keys of a map are listed once each, and
  \<open>sort.Slice\<close> permutes the slice so that no element is less than one before it.\<close>

definition mapRange_ok :: "(string set \<Rightarrow> string list) \<Rightarrow> bool" where
  "mapRange_ok keys = (\<forall>S. finite S \<longrightarrow> set (keys S) = S \<and> distinct (keys S))"

definition sortSlice_ok :: "(string list \<Rightarrow> (string \<Rightarrow> string \<Rightarrow> bool) \<Rightarrow> string list) \<Rightarrow> bool" where
  "sortSlice_ok srt =
     (\<forall>xs. mset (srt xs (\<lambda>a b. length a < length b)) = mset xs \<and>
           sorted_wrt (\<lambda>a b. \<not> length b < length a) (srt xs (\<lambda>a b. length a < length b)))"

text \<open>The requests in a trace, in order.\<close>

fun requested :: "event list \<Rightarrow> string list" where
  "requested [] = []"
| "requested (Get url # evs) = url # requested evs"
| "requested (e # evs) = requested evs"

text \<open>The requests and pauses in a trace, in order.\<close>

fun pacing :: "event list \<Rightarrow> event list" where
  "pacing [] = []"
| "pacing (Get url # evs) = Get url # pacing evs"
| "pacing (Sleep n # evs) = Sleep n # pacing evs"
| "pacing (e # evs) = pacing evs"

subsection \<open>An environment to run \<open>main\<close> in\<close>

text \<open>
  A concrete outside world for examples: only \<open>app\<close> exists, the walk finds the given
  tree, the keys of the map come in alphabetical order, \<open>sort.Slice\<close> is an insertion sort
  by length, and the server answers every second request with a timeout. The state of
  the world is the number of requests so far.
\<close>

definition exampleEnv :: "fsroot \<Rightarrow> nat environment" where
  "exampleEnv tree =
     \<lparr>osStat = (\<lambda>p. if p = ''app'' then Inr \<lparr>isDirectory = True\<rparr>
                     else Inl (IOError ''no such file or directory'')),
      fileTree = (\<lambda>p. tree),
      mapRange = sorted_list_of_set,
      sortSlice = (\<lambda>xs less. sort_key length xs),
      clientGet = (\<lambda>w url. (if even w then Response ''200 OK'' else Failed ''timeout'', Suc w))\<rparr>"

subsection \<open>The tests of the segment loop, named\<close>

text \<open>
  The loop passes over a segment without effect when it is empty or meets the test for
  a route group (\<open>isGroup\<close>), appends it when no test holds (\<open>isKept\<close>), and returns
  early otherwise, for the reason \<open>skipReason\<close>.
\<close>

definition isGroup :: "string \<Rightarrow> bool" where
  "isGroup segment =
     (HasPrefix segment ''('' \<and> HasSuffix segment '')'' \<and> \<not> HasPrefix segment ''(...'')"

definition isKept :: "string \<Rightarrow> bool" where
  "isKept segment =
     (segment \<noteq> [] \<and> \<not> HasPrefix segment ''_'' \<and> \<not> isGroup segment \<and>
      segment \<noteq> ''(.)'' \<and> segment \<noteq> ''(..)'' \<and> segment \<noteq> ''(...)'' \<and>
      \<not> HasPrefix segment ''@'' \<and> \<not> (HasPrefix segment ''['' \<and> HasSuffix segment '']''))"

definition skipReason :: "string \<Rightarrow> skip_reason" where
  "skipReason segment =
     (if HasPrefix segment ''_'' then PrivateSegment
      else if segment = ''(.)'' \<or> segment = ''(..)'' \<or> segment = ''(...)'' then InterceptingRoute
      else if HasPrefix segment ''@'' then ParallelSlot
      else DynamicRoute)"

subsection \<open>Trees that the walk can read\<close>

text \<open>
  A tree is readable when no directory in it fails to be read; the root of a walk is
  walkable when it exists and is readable.
\<close>

fun readable :: "node \<Rightarrow> bool" where
  "readable (File name) = True"
| "readable (Dir name entries) = (\<forall>d\<in>set entries. readable d)"
| "readable (Unreadable name err) = False"

definition walkable :: "fsroot \<Rightarrow> bool" where
  "walkable root = (case root of Missing err \<Rightarrow> False | Present n \<Rightarrow> readable n)"

section \<open>Properties\<close>

subsection \<open>Splitting and joining\<close>

lemma HasPrefix_single: "HasPrefix s [c] \<longleftrightarrow> s \<noteq> [] \<and> hd s = c"
  by (cases s) (auto simp: HasPrefix_def)

lemma drop_to_last: "s \<noteq> [] \<Longrightarrow> drop (length s - Suc 0) s = [last s]"
proof -
  assume "s \<noteq> []"
  then have "s = butlast s @ [last s]" by simp
  then have "drop (length (butlast s)) s = [last s]"
    by (metis append_eq_conv_conj)
  then show ?thesis by simp
qed

lemma HasSuffix_single: "HasSuffix s [c] \<longleftrightarrow> s \<noteq> [] \<and> last s = c"
  by (cases "s = []") (auto simp: HasSuffix_def drop_to_last Suc_le_eq)

lemma Split_not_Nil: "Split s c \<noteq> []"
  by (induction s) (auto split: list.splits)

lemma Split_no_sep: "p \<in> set (Split s c) \<Longrightarrow> c \<notin> set p"
proof (induction s arbitrary: p)
  case Nil
  then show ?case by simp
next
  case (Cons a s)
  obtain w ws where sp: "Split s c = w # ws"
    using Split_not_Nil [of s c] by (cases "Split s c") auto
  show ?case
  proof (cases "a = c")
    case True
    with Cons show ?thesis by auto
  next
    case False
    with Cons.prems sp have "p = a # w \<or> p \<in> set ws" by auto
    with Cons.IH sp False show ?thesis by auto
  qed
qed

lemma Split_sep_append: "Split (xs @ c # ys) c = Split xs c @ Split ys c"
proof (induction xs)
  case Nil
  then show ?case by simp
next
  case (Cons a xs)
  then show ?case using Split_not_Nil [of xs c] by (cases "Split xs c") auto
qed

lemma Split_no_sep_id: "c \<notin> set s \<Longrightarrow> Split s c = [s]"
  by (induction s) auto

lemma Split_Join:
  "here \<noteq> [] \<Longrightarrow> \<forall>n\<in>set here. c \<notin> set n \<Longrightarrow> Split (Join here [c]) c = here"
proof (induction here "[c]" rule: Join.induct)
  case 1
  then show ?case by simp
next
  case (2 x)
  then show ?case by (simp add: Split_no_sep_id)
next
  case (3 x y ys)
  then show ?case by (simp add: Split_sep_append Split_no_sep_id)
qed

subsection \<open>The segment loop\<close>

lemma segmentLoop_Cons_cases:
  "segmentLoop (s # rest) acc =
     (if s = [] \<or> isGroup s then segmentLoop rest acc
      else if isKept s then segmentLoop rest (acc @ [s])
      else Inl (skipReason s))"
  by (auto simp: isGroup_def isKept_def skipReason_def HasPrefix_single)

lemma segmentLoop_Inr_filter:
  "segmentLoop segs acc = Inr fin \<Longrightarrow> fin = acc @ filter isKept segs"
proof (induction segs arbitrary: acc)
  case Nil
  then show ?case by simp
next
  case (Cons s segs)
  show ?case
  proof (cases "s = [] \<or> isGroup s")
    case True
    then have "\<not> isKept s" by (auto simp: isKept_def)
    with True Cons show ?thesis by (auto simp: segmentLoop_Cons_cases simp del: segmentLoop.simps)
  next
    case False
    show ?thesis
    proof (cases "isKept s")
      case True
      with False Cons.prems have "segmentLoop segs (acc @ [s]) = Inr fin"
        by (simp add: segmentLoop_Cons_cases del: segmentLoop.simps)
      from Cons.IH [OF this] True show ?thesis by simp
    next
      case k: False
      with False k Cons.prems show ?thesis
        by (simp add: segmentLoop_Cons_cases del: segmentLoop.simps)
    qed
  qed
qed

lemma segmentLoop_append_group:
  "isGroup g \<Longrightarrow> segmentLoop (xs @ g # ys) acc = segmentLoop (xs @ ys) acc"
  by (induction xs arbitrary: acc) (simp_all add: segmentLoop_Cons_cases del: segmentLoop.simps)

lemma segmentLoop_private:
  "HasPrefix p ''_'' \<Longrightarrow> \<exists>reason. segmentLoop (xs @ p # ys) acc = Inl reason"
proof (induction xs arbitrary: acc)
  case Nil
  then show ?case by (auto simp: HasPrefix_single)
next
  case (Cons x xs)
  show ?case
    using Cons.IH [OF Cons.prems]
    by (auto simp: segmentLoop_Cons_cases simp del: segmentLoop.simps)
qed

subsection \<open>Routes of a path and of a walk\<close>

lemma Join_Cons: "Join (x # xs) sep = (if xs = [] then x else x @ sep @ Join xs sep)"
  by (cases xs) auto

lemma Join_last:
  "fin \<noteq> [] \<Longrightarrow> \<forall>s\<in>set fin. s \<noteq> [] \<Longrightarrow> Join fin sep \<noteq> [] \<and> last (Join fin sep) = last (last fin)"
proof (induction fin)
  case Nil
  then show ?case by simp
next
  case (Cons x fin)
  then show ?case by (cases "fin = []") (auto simp: Join_Cons)
qed

lemma Join_sep_mem: "Join (x # y # ys) [c] \<noteq> [c']" if "c' \<noteq> c"
proof
  assume "Join (x # y # ys) [c] = [c']"
  then have "set (Join (x # y # ys) [c]) = {c'}" by simp
  moreover have "c \<in> set (Join (x # y # ys) [c])" by simp
  ultimately show False using that by simp
qed

lemma relPathOf_not_dot:
  assumes "here \<noteq> []" "\<forall>n\<in>set here. n \<noteq> ''.''"
  shows "relPathOf here \<noteq> ''.''"
proof (cases here)
  case Nil
  with assms show ?thesis by simp
next
  case (Cons x xs)
  show ?thesis
  proof (cases xs)
    case Nil
    with Cons assms show ?thesis by (simp add: relPathOf_def)
  next
    case (Cons y ys)
    with \<open>here = x # xs\<close> Join_sep_mem [of "CHR ''.''" "CHR ''/''" x y ys]
    show ?thesis by (simp add: relPathOf_def)
  qed
qed

lemma segments_of_here:
  assumes "\<forall>n\<in>set here. CHR ''/'' \<notin> set n \<and> n \<noteq> ''.''"
  shows "segmentLoop (Split (routeString (relPathOf here)) CHR ''/'') [] = segmentLoop here []"
proof (cases "here = []")
  case True
  then show ?thesis by (simp add: relPathOf_def routeString_def)
next
  case False
  with assms have nd: "relPathOf here \<noteq> ''.''" by (simp add: relPathOf_not_dot)
  have "Split (Join here ''/'') CHR ''/'' = here"
    using False assms by (simp add: Split_Join)
  with False nd show ?thesis by (simp add: routeString_def relPathOf_def)
qed

lemma Join_not_sep:
  assumes "\<forall>s\<in>set fin. s \<noteq> [] \<and> c \<notin> set s"
  shows "Join fin [c] \<noteq> [c]"
proof (cases "fin = []")
  case True
  then show ?thesis by simp
next
  case False
  with assms have "last (Join fin [c]) = last (last fin)" by (simp add: Join_last)
  moreover from False assms have "last (last fin) \<in> set (last fin)" by simp
  ultimately show ?thesis using assms False by (metis last_in_set last.simps)
qed

text \<open>The last test of the callback never fires: a join of segments is never \<open>"/"\<close>.\<close>

lemma pathRoute_eq:
  "pathRoute rel =
     (case segmentLoop (Split (routeString rel) CHR ''/'') [] of
        Inl reason \<Rightarrow> Inl reason
      | Inr fin \<Rightarrow> Inr (''/'' @ Join fin ''/''))"
proof (cases "segmentLoop (Split (routeString rel) CHR ''/'') []")
  case (Inl reason)
  then show ?thesis by (simp add: pathRoute_def)
next
  case (Inr fin)
  from segmentLoop_Inr_filter [OF Inr]
  have "\<forall>s\<in>set fin. s \<noteq> [] \<and> CHR ''/'' \<notin> set s"
    using Split_no_sep by (auto simp: isKept_def)
  then have "Join fin ''/'' \<noteq> ''/''" by (rule Join_not_sep)
  with Inr show ?thesis by (simp add: pathRoute_def)
qed

lemma pathRoute_final:
  assumes "pathRoute rel = Inr r"
  obtains fin where "segmentLoop (Split (routeString rel) CHR ''/'') [] = Inr fin"
    and "r = ''/'' @ Join fin ''/''"
    and "\<forall>s\<in>set fin. isKept s \<and> CHR ''/'' \<notin> set s"
proof -
  from assms obtain fin where sl: "segmentLoop (Split (routeString rel) CHR ''/'') [] = Inr fin"
    and r: "r = ''/'' @ Join fin ''/''"
    by (auto simp: pathRoute_eq split: sum.splits)
  from segmentLoop_Inr_filter [OF sl]
  have "\<forall>s\<in>set fin. isKept s \<and> CHR ''/'' \<notin> set s"
    using Split_no_sep by auto
  with sl r show ?thesis using that by blast
qed

lemma pathRoute_canonical:
  assumes "pathRoute rel = Inr r"
  shows "HasPrefix r ''/'' \<and> (HasSuffix r ''/'' \<longrightarrow> r = ''/'')"
proof -
  from assms obtain fin where r: "r = ''/'' @ Join fin ''/''"
    and kept: "\<forall>s\<in>set fin. isKept s \<and> CHR ''/'' \<notin> set s"
    by (rule pathRoute_final)
  show ?thesis
  proof (cases "fin = []")
    case True
    with r show ?thesis by (simp add: HasPrefix_single)
  next
    case False
    from kept have ne: "\<forall>s\<in>set fin. s \<noteq> []" by (auto simp: isKept_def)
    from Join_last [OF False ne] have j: "Join fin ''/'' \<noteq> []"
      and l: "last (Join fin ''/'') = last (last fin)" by auto
    from False ne have "last (last fin) \<in> set (last fin)" by simp
    with kept False have "last (last fin) \<noteq> CHR ''/''" by (metis last_in_set)
    with j l r show ?thesis by (simp add: HasPrefix_single HasSuffix_single)
  qed
qed

lemma pathRoute_components:
  assumes "pathRoute rel = Inr r" "c \<in> set (Split r CHR ''/'')"
  shows "c = [] \<or> isKept c"
proof -
  from assms(1) obtain fin where r: "r = ''/'' @ Join fin ''/''"
    and kept: "\<forall>s\<in>set fin. isKept s \<and> CHR ''/'' \<notin> set s"
    by (rule pathRoute_final)
  show ?thesis
  proof (cases "fin = []")
    case True
    with r assms show ?thesis by auto
  next
    case False
    with kept have "Split (Join fin ''/'') CHR ''/'' = fin" by (simp add: Split_Join)
    with r assms kept show ?thesis by auto
  qed
qed

lemma walk_routes_invariant:
  assumes P: "\<forall>rel r. pathRoute rel = Inr r \<longrightarrow> P r"
  shows "walkDir here n st = Inr st' \<Longrightarrow> \<forall>r\<in>routeSet st. P r \<Longrightarrow> \<forall>r\<in>routeSet st'. P r"
    and "walkEntries here ns st = Inr st' \<Longrightarrow> \<forall>r\<in>routeSet st. P r \<Longrightarrow> \<forall>r\<in>routeSet st'. P r"
proof (induction here n st and here ns st arbitrary: st' and st' rule: walkDir_walkEntries.induct)
  case (1 here name st)
  then show ?case using P by (auto simp: visit_def split: sum.splits if_splits)
next
  case (2 here name entries st)
  have "\<forall>r\<in>routeSet (visit (relPathOf here) name True st). P r"
    using 2(3) P by (auto simp: visit_def split: sum.splits if_splits)
  with 2 show ?case by simp
next
  case (3 here name err st)
  then show ?case by simp
next
  case (4 here st)
  then show ?case by simp
next
  case (5 here d1 ds st)
  then show ?case by (auto split: sum.splits)
qed

lemma findStaticRoutes_invariant:
  assumes P: "\<forall>rel r. pathRoute rel = Inr r \<longrightarrow> P r"
    and "findStaticRoutes root = Inr R" "r \<in> R"
  shows "P r"
proof -
  let ?st0 = "\<lparr>routeSet = {}, logged = []\<rparr>"
  from assms(2) obtain st where w: "WalkDir root ?st0 = Inr st" and R: "R = routeSet st"
    by (auto simp: findStaticRoutes_def split: sum.splits)
  have v: "\<forall>r\<in>routeSet (visit rel name d ?st0). P r" for rel name d
    using P by (auto simp: visit_def split: sum.splits if_splits)
  have "\<forall>r\<in>routeSet st. P r"
  proof (cases root)
    case (Missing e)
    with w show ?thesis by (simp add: WalkDir_def)
  next
    case (Present n)
    show ?thesis
    proof (cases n)
      case (File name)
      with Present w v show ?thesis by (auto simp: WalkDir_def)
    next
      case (Dir name entries)
      with Present w have "walkEntries [] entries (visit ''..'' name True ?st0) = Inr st"
        by (simp add: WalkDir_def)
      from walk_routes_invariant(2) [OF P this] v show ?thesis by blast
    next
      case (Unreadable name e)
      with Present w show ?thesis by (simp add: WalkDir_def)
    qed
  qed
  with R assms(3) show ?thesis by simp
qed

subsection \<open>Routes of a chain of directory names\<close>

lemma HasPrefix_iff: "HasPrefix s p \<longleftrightarrow> (\<exists>t. s = p @ t)"
proof
  assume "HasPrefix s p"
  then have "s = p @ drop (length p) s"
    by (metis HasPrefix_def append_take_drop_id)
  then show "\<exists>t. s = p @ t" ..
next
  assume "\<exists>t. s = p @ t"
  then show "HasPrefix s p" by (auto simp: HasPrefix_def)
qed

lemma pathRoute_here:
  assumes "\<forall>n\<in>set here. CHR ''/'' \<notin> set n \<and> n \<noteq> ''.''"
  shows "pathRoute (relPathOf here) =
     (case segmentLoop here [] of Inl reason \<Rightarrow> Inl reason
      | Inr fin \<Rightarrow> Inr (''/'' @ Join fin ''/''))"
  by (simp add: pathRoute_eq segments_of_here [OF assms])

lemma segmentLoop_groups: "\<forall>g\<in>set groups. isGroup g \<Longrightarrow> segmentLoop groups acc = Inr acc"
  by (induction groups) (simp_all add: segmentLoop_Cons_cases del: segmentLoop.simps(2))

lemma isGroup_not_dot: "isGroup g \<Longrightarrow> g \<noteq> ''.''"
  by (auto simp: isGroup_def HasPrefix_single)

subsection \<open>Private directories\<close>

lemma segmentLoop_has_private:
  assumes "\<exists>s\<in>set segs. HasPrefix s ''_''"
  shows "\<exists>reason. segmentLoop segs acc = Inl reason"
proof -
  from assms obtain s where "s \<in> set segs" "HasPrefix s ''_''" by blast
  then obtain xs ys where "segs = xs @ s # ys" by (meson split_list)
  with \<open>HasPrefix s ''_''\<close> show ?thesis by (simp add: segmentLoop_private del: segmentLoop.simps(2))
qed

lemma Join_mem:
  "s \<in> set here \<Longrightarrow> \<exists>pre post. Join here [c] = pre @ s @ post \<and> (pre = [] \<or> last pre = c)"
proof (induction here "[c]" rule: Join.induct)
  case 1
  then show ?case by simp
next
  case (2 x)
  then have "Join [x] [c] = [] @ s @ []" by simp
  then show ?case by blast
next
  case (3 x y ys)
  show ?case
  proof (cases "s = x")
    case True
    then have "Join (x # y # ys) [c] = [] @ s @ ([c] @ Join (y # ys) [c])" by simp
    then show ?thesis by blast
  next
    case False
    with 3 obtain pre post where "Join (y # ys) [c] = pre @ s @ post" "pre = [] \<or> last pre = c"
      by auto
    then have "Join (x # y # ys) [c] = (x @ [c] @ pre) @ s @ post \<and> (last (x @ [c] @ pre) = c)"
      by auto
    then show ?thesis by blast
  qed
qed

lemma Split_head_private:
  "\<exists>w ws. Split (CHR ''_'' # t) CHR ''/'' = (CHR ''_'' # w) # ws"
  using Split_not_Nil [of t "CHR ''/''"] by (cases "Split t CHR ''/''") auto

lemma private_name_private_segment:
  assumes "s \<in> set here" "HasPrefix s ''_''"
  shows "\<exists>x\<in>set (Split (routeString (relPathOf here)) CHR ''/''). HasPrefix x ''_''"
proof -
  from assms(2) obtain t where s: "s = CHR ''_'' # t" by (cases s) (auto simp: HasPrefix_single)
  from assms(1) have ne: "here \<noteq> []" by auto
  from Join_mem [OF assms(1), of "CHR ''/''"] obtain pre post
    where j: "Join here ''/'' = pre @ s @ post" and pre: "pre = [] \<or> last pre = CHR ''/''"
    by blast
  from j s have "CHR ''_'' \<in> set (Join here ''/'')" by simp
  then have "Join here ''/'' \<noteq> ''.''" by auto
  with ne j have route: "routeString (relPathOf here) = (''/'' @ pre) @ s @ post"
    by (simp add: routeString_def relPathOf_def)
  from pre obtain pre' where "''/'' @ pre = pre' @ ''/''"
  proof (cases "pre = []")
    case True
    then have "''/'' @ pre = [] @ ''/''" by simp
    then show ?thesis using that by blast
  next
    case False
    with pre have "pre = butlast pre @ ''/''" by (metis append_butlast_last_id)
    then have "''/'' @ pre = (''/'' @ butlast pre) @ ''/''" by simp
    then show ?thesis using that by blast
  qed
  with route have "routeString (relPathOf here) = pre' @ CHR ''/'' # (CHR ''_'' # t @ post)"
    using s by simp
  then have sp: "Split (routeString (relPathOf here)) CHR ''/''
      = Split pre' CHR ''/'' @ Split (CHR ''_'' # t @ post) CHR ''/''"
    by (simp only: Split_sep_append)
  from Split_head_private [of "t @ post"] obtain w ws
    where "Split (CHR ''_'' # t @ post) CHR ''/'' = (CHR ''_'' # w) # ws" by blast
  with sp have "CHR ''_'' # w \<in> set (Split (routeString (relPathOf here)) CHR ''/'')" by simp
  moreover have "HasPrefix (CHR ''_'' # w) ''_''" by (simp add: HasPrefix_single)
  ultimately show ?thesis by blast
qed

lemma pathRoute_private:
  assumes "\<exists>x\<in>set (Split (routeString rel) CHR ''/''). HasPrefix x ''_''"
  shows "\<exists>reason. pathRoute rel = Inl reason"
  using segmentLoop_has_private [OF assms, of "[]"] by (auto simp: pathRoute_eq)

lemma visit_private:
  assumes "\<exists>x\<in>set (Split (routeString rel) CHR ''/''). HasPrefix x ''_''"
  shows "routeSet (visit rel fileName isDir st) = routeSet st"
  using pathRoute_private [OF assms] by (auto simp: visit_def)

lemma walk_below_private:
  assumes "\<exists>s\<in>set here. HasPrefix s ''_''"
  shows "walkDir here n st = Inr st' \<Longrightarrow> routeSet st' = routeSet st"
    and "walkEntries here ns st = Inr st' \<Longrightarrow> routeSet st' = routeSet st"
  using assms
proof (induction here n st and here ns st arbitrary: st' and st' rule: walkDir_walkEntries.induct)
  case (1 here name st)
  from 1(2) have "routeSet (visit (relPathOf here) name False st) = routeSet st"
    using private_name_private_segment visit_private by blast
  with 1(1) show ?case by auto
next
  case (2 here name entries st)
  from 2(3) have v: "routeSet (visit (relPathOf here) name True st) = routeSet st"
    using private_name_private_segment visit_private by blast
  from 2(3) have "\<exists>s\<in>set (here @ [name]). HasPrefix s ''_''" by auto
  with 2(1) [of st'] 2(2) v show ?case by simp
next
  case (3 here name err st)
  then show ?case by simp
next
  case (4 here st)
  then show ?case by simp
next
  case (5 here d1 ds st)
  from 5(3) obtain st1 where a: "walkDir here d1 st = Inr st1"
    and b: "walkEntries here ds st1 = Inr st'"
    by (auto split: sum.splits)
  from 5(1) [OF a 5(4)] 5(2) [OF a b 5(4)] show ?case by simp
qed

subsection \<open>Disqualified directories\<close>

lemma segmentLoop_disqualified:
  assumes "s \<noteq> []" "\<not> isGroup s" "\<not> isKept s"
  shows "\<exists>reason. segmentLoop (xs @ s # ys) acc = Inl reason"
proof (induction xs arbitrary: acc)
  case Nil
  with assms show ?case by (simp add: segmentLoop_Cons_cases del: segmentLoop.simps(2))
next
  case (Cons x xs)
  then show ?case by (auto simp: segmentLoop_Cons_cases simp del: segmentLoop.simps(2))
qed

lemma Join_mem_between:
  "s \<in> set here \<Longrightarrow>
   \<exists>pre post. Join here [c] = pre @ s @ post \<and> (pre = [] \<or> last pre = c) \<and> (post = [] \<or> hd post = c)"
proof (induction here "[c]" rule: Join.induct)
  case 1
  then show ?case by simp
next
  case (2 x)
  then have "Join [x] [c] = [] @ s @ []" by simp
  then show ?case by blast
next
  case (3 x y ys)
  show ?case
  proof (cases "s = x")
    case True
    then have "Join (x # y # ys) [c] = [] @ s @ ([c] @ Join (y # ys) [c])" by simp
    moreover have "hd ([c] @ Join (y # ys) [c]) = c" by simp
    ultimately show ?thesis by blast
  next
    case False
    with 3 obtain pre post where "Join (y # ys) [c] = pre @ s @ post"
      "pre = [] \<or> last pre = c" "post = [] \<or> hd post = c"
      by auto
    then have "Join (x # y # ys) [c] = (x @ [c] @ pre) @ s @ post \<and> last (x @ [c] @ pre) = c
        \<and> (post = [] \<or> hd post = c)"
      by auto
    then show ?thesis by blast
  qed
qed

lemma name_is_segment:
  assumes "s \<in> set here" "CHR ''/'' \<notin> set s" "s \<noteq> []" "s \<noteq> ''.''"
  shows "s \<in> set (Split (routeString (relPathOf here)) CHR ''/'')"
proof -
  from assms(1) have ne: "here \<noteq> []" by auto
  from Join_mem_between [OF assms(1), of "CHR ''/''"] obtain pre post
    where j: "Join here ''/'' = pre @ s @ post" and pre: "pre = [] \<or> last pre = CHR ''/''"
      and post: "post = [] \<or> hd post = CHR ''/''"
    by blast
  have "Join here ''/'' \<noteq> ''.''"
  proof
    assume d: "Join here ''/'' = ''.''"
    with j have "length pre + length s + length post = 1" by (metis length_append add.assoc length_Cons list.size(3) One_nat_def)
    with assms(3) have "pre = []" "post = []" by (cases s; simp)+
    with j d assms(4) show False by simp
  qed
  with ne j have route: "routeString (relPathOf here) = (''/'' @ pre) @ s @ post"
    by (simp add: routeString_def relPathOf_def)
  from pre obtain pre' where "''/'' @ pre = pre' @ ''/''"
  proof (cases "pre = []")
    case True
    then have "''/'' @ pre = [] @ ''/''" by simp
    then show ?thesis using that by blast
  next
    case False
    with pre have "pre = butlast pre @ ''/''" by (metis append_butlast_last_id)
    then have "''/'' @ pre = (''/'' @ butlast pre) @ ''/''" by simp
    then show ?thesis using that by blast
  qed
  with route have "routeString (relPathOf here) = pre' @ CHR ''/'' # (s @ post)" by simp
  then have sp: "Split (routeString (relPathOf here)) CHR ''/''
      = Split pre' CHR ''/'' @ Split (s @ post) CHR ''/''"
    by (simp only: Split_sep_append)
  have "s \<in> set (Split (s @ post) CHR ''/'')"
  proof (cases post)
    case Nil
    with assms(2) show ?thesis by (simp add: Split_no_sep_id)
  next
    case (Cons a post')
    with post have "s @ post = s @ CHR ''/'' # post'" by simp
    then show ?thesis using assms(2) by (simp only: Split_sep_append) (simp add: Split_no_sep_id)
  qed
  with sp show ?thesis by simp
qed

lemma pathRoute_disqualified:
  assumes "s \<in> set here" "CHR ''/'' \<notin> set s" "s \<noteq> []" "\<not> isGroup s" "\<not> isKept s"
  shows "\<exists>reason. pathRoute (relPathOf here) = Inl reason"
proof -
  from assms(3,4,5) have "s \<noteq> ''.''" by (auto simp: isKept_def isGroup_def HasPrefix_def HasSuffix_def)
  from name_is_segment [OF assms(1,2,3) this]
  obtain xs ys where "Split (routeString (relPathOf here)) CHR ''/'' = xs @ s # ys"
    by (meson split_list)
  with segmentLoop_disqualified [OF assms(3,4,5), of xs ys "[]"] show ?thesis
    by (auto simp: pathRoute_eq)
qed

lemma walk_below_disqualified:
  assumes "\<exists>s\<in>set here. CHR ''/'' \<notin> set s \<and> s \<noteq> [] \<and> \<not> isGroup s \<and> \<not> isKept s"
  shows "walkDir here n st = Inr st' \<Longrightarrow> routeSet st' = routeSet st"
    and "walkEntries here ns st = Inr st' \<Longrightarrow> routeSet st' = routeSet st"
  using assms
proof (induction here n st and here ns st arbitrary: st' and st' rule: walkDir_walkEntries.induct)
  case (1 here name st)
  from 1(2) have "\<exists>reason. pathRoute (relPathOf here) = Inl reason"
    using pathRoute_disqualified by blast
  then have "routeSet (visit (relPathOf here) name False st) = routeSet st"
    by (auto simp: visit_def)
  with 1(1) show ?case by auto
next
  case (2 here name entries st)
  have v: "visit (relPathOf here) name True st = st" by (simp add: visit_def isPageFile_def)
  from 2(3) have "\<exists>s\<in>set (here @ [name]). CHR ''/'' \<notin> set s \<and> s \<noteq> [] \<and> \<not> isGroup s \<and> \<not> isKept s"
    by auto
  with 2(1) [of st'] 2(2) v show ?case by simp
next
  case (3 here name err st)
  then show ?case by simp
next
  case (4 here st)
  then show ?case by simp
next
  case (5 here d1 ds st)
  from 5(3) obtain st1 where a: "walkDir here d1 st = Inr st1"
    and b: "walkEntries here ds st1 = Inr st'"
    by (auto split: sum.splits)
  from 5(1) [OF a 5(4)] 5(2) [OF a b 5(4)] show ?case by simp
qed

subsection \<open>Failing walks\<close>

lemma walk_fails_iff:
  "(\<exists>err. walkDir here n st = Inl err) \<longleftrightarrow> \<not> readable n"
  "(\<exists>err. walkEntries here ns st = Inl err) \<longleftrightarrow> (\<exists>d\<in>set ns. \<not> readable d)"
proof (induction here n st and here ns st rule: walkDir_walkEntries.induct)
  case (1 here name st)
  then show ?case by simp
next
  case (2 here name entries st)
  then show ?case by simp
next
  case (3 here name err st)
  then show ?case by simp
next
  case (4 here st)
  then show ?case by simp
next
  case (5 here d1 ds st)
  show ?case
  proof (cases "walkDir here d1 st")
    case (Inl err)
    with 5(1) show ?thesis by auto
  next
    case (Inr st1)
    with 5(1) have "readable d1" by auto
    with Inr 5(2) [OF Inr] show ?thesis by simp
  qed
qed

lemma findStaticRoutes_fails_iff:
  "(\<exists>err. findStaticRoutes root = Inl err) \<longleftrightarrow> \<not> walkable root"
proof (cases root)
  case (Missing e)
  then show ?thesis by (simp add: findStaticRoutes_def WalkDir_def walkable_def)
next
  case (Present n)
  show ?thesis
  proof (cases n)
    case (File name)
    with Present show ?thesis by (simp add: findStaticRoutes_def WalkDir_def walkable_def)
  next
    case (Dir name entries)
    let ?st = "visit ''..'' name True \<lparr>routeSet = {}, logged = []\<rparr>"
    from walk_fails_iff(2) [of "[]" entries ?st]
    have "(\<exists>err. walkEntries [] entries ?st = Inl err) \<longleftrightarrow> \<not> readable n"
      using Dir by simp
    with Present Dir show ?thesis
      by (auto simp: findStaticRoutes_def WalkDir_def walkable_def split: sum.splits)
  next
    case (Unreadable name e)
    with Present show ?thesis by (simp add: findStaticRoutes_def WalkDir_def walkable_def)
  qed
qed

subsection \<open>The warm-up loop\<close>

lemma requested_append: "requested (xs @ ys) = requested xs @ requested ys"
  by (induction xs rule: requested.induct) simp_all

lemma pacing_append: "pacing (xs @ ys) = pacing xs @ pacing ys"
  by (induction xs rule: pacing.induct) simp_all

lemma warmUp_Cons:
  "warmUp get (route # rest) w =
     (case get w (baseURL @ route) of
        (Failed err, w1) \<Rightarrow>
          ([PrintGet (baseURL @ route), Get (baseURL @ route), PrintError err, Sleep 1]
             @ fst (warmUp get rest w1), snd (warmUp get rest w1))
      | (Response status, w1) \<Rightarrow>
          ([PrintGet (baseURL @ route), Get (baseURL @ route), CloseBody, PrintStatus status, Sleep 1]
             @ fst (warmUp get rest w1), snd (warmUp get rest w1)))"
  by (simp add: Let_def split: prod.splits http_result.splits)

lemma warmUp_requested: "requested (fst (warmUp get routes w)) = map ((@) baseURL) routes"
proof (induction routes arbitrary: w)
  case Nil
  then show ?case by simp
next
  case (Cons route rest)
  then show ?case
    by (simp add: warmUp_Cons split: prod.splits http_result.splits del: warmUp.simps(2))
qed

lemma warmUp_pacing:
  "pacing (fst (warmUp get routes w)) = concat (map (\<lambda>route. [Get (baseURL @ route), Sleep 1]) routes)"
proof (induction routes arbitrary: w)
  case Nil
  then show ?case by simp
next
  case (Cons route rest)
  then show ?case
    by (simp add: warmUp_Cons split: prod.splits http_result.splits del: warmUp.simps(2))
qed

lemma warmUp_append:
  "warmUp get (xs @ ys) w =
     (fst (warmUp get xs w) @ fst (warmUp get ys (snd (warmUp get xs w))),
      snd (warmUp get ys (snd (warmUp get xs w))))"
proof (induction xs arbitrary: w)
  case Nil
  then show ?case by simp
next
  case (Cons route rest)
  then show ?case
    by (simp add: warmUp_Cons split: prod.splits http_result.splits del: warmUp.simps(2))
qed

lemma findAppLoop_two:
  "findAppLoop st [a, b] =
     (case st a of Inr info \<Rightarrow> Some a
      | Inl err \<Rightarrow> (case st b of Inr info \<Rightarrow> Some b | Inl err' \<Rightarrow> None))"
  by (simp split: sum.splits)

subsection \<open>The route set is finite\<close>

lemma visit_finite: "finite (routeSet st) \<Longrightarrow> finite (routeSet (visit rel name d st))"
  by (simp add: visit_def split: sum.splits)

lemma walk_finite:
  "walkDir here n st = Inr st' \<Longrightarrow> finite (routeSet st) \<Longrightarrow> finite (routeSet st')"
  "walkEntries here ns st = Inr st' \<Longrightarrow> finite (routeSet st) \<Longrightarrow> finite (routeSet st')"
proof (induction here n st and here ns st arbitrary: st' and st' rule: walkDir_walkEntries.induct)
  case (1 here name st)
  then show ?case using visit_finite by auto
next
  case (2 here name entries st)
  from 2(3) have "finite (routeSet (visit (relPathOf here) name True st))" by (rule visit_finite)
  with 2(1) [of st'] 2(2) show ?case by simp
next
  case (3 here name err st)
  then show ?case by simp
next
  case (4 here st)
  then show ?case by simp
next
  case (5 here d1 ds st)
  from 5(3) obtain st1 where a: "walkDir here d1 st = Inr st1"
    and b: "walkEntries here ds st1 = Inr st'"
    by (auto split: sum.splits)
  from 5(2) [OF a b] 5(1) [OF a 5(4)] show ?case by simp
qed

lemma findStaticRoutes_finite:
  assumes "findStaticRoutes root = Inr found"
  shows "finite found"
proof -
  let ?st0 = "\<lparr>routeSet = {}, logged = []\<rparr>"
  from assms obtain st where w: "WalkDir root ?st0 = Inr st" and R: "found = routeSet st"
    by (auto simp: findStaticRoutes_def split: sum.splits)
  have v: "finite (routeSet (visit rel name d ?st0))" for rel name d
    by (rule visit_finite) simp
  have "finite (routeSet st)"
  proof (cases root)
    case (Missing e)
    with w show ?thesis by (simp add: WalkDir_def)
  next
    case (Present n)
    show ?thesis
    proof (cases n)
      case (File name)
      with Present w v show ?thesis by (auto simp: WalkDir_def)
    next
      case (Dir name entries)
      with Present w have "walkEntries [] entries (visit ''..'' name True ?st0) = Inr st"
        by (simp add: WalkDir_def)
      from walk_finite(2) [OF this v] show ?thesis .
    next
      case (Unreadable name e)
      with Present w show ?thesis by (simp add: WalkDir_def)
    qed
  qed
  with R show ?thesis by simp
qed

subsection \<open>The example environment\<close>

lemma exampleEnv_contracts:
  "mapRange_ok (mapRange (exampleEnv tree))" "sortSlice_ok (sortSlice (exampleEnv tree))"
proof -
  show "mapRange_ok (mapRange (exampleEnv tree))"
    by (simp add: exampleEnv_def mapRange_ok_def)
  have "sorted_wrt (\<lambda>a b. length a \<le> length b) (sort_key length xs)" for xs :: "string list"
    using sorted_sort_key [of length xs] by (simp only: sorted_map)
  then show "sortSlice_ok (sortSlice (exampleEnv tree))"
    by (simp add: exampleEnv_def sortSlice_ok_def not_less)
qed

lemma exampleEnv_app: "findAppDirectory (osStat (exampleEnv tree)) = Inr ''app''"
  by (simp add: exampleEnv_def findAppDirectory_def possibleAppDirs_def)

lemma main_example_run:
  "main (exampleEnv (Present (Dir ''app'' [Dir ''blog'' [Dir ''post''
       [File ''page.tsx'']], Dir ''about'' [File ''page.tsx''], File ''page.tsx'']))) 0
   = (ExitOK,
      [LogFoundApp ''app'', PrintDiscovering, PrintFound 3,
       PrintGet ''http://localhost:3000/'', Get ''http://localhost:3000/'',
       CloseBody, PrintStatus ''200 OK'', Sleep 1,
       PrintGet ''http://localhost:3000/about'', Get ''http://localhost:3000/about'',
       PrintError ''timeout'', Sleep 1,
       PrintGet ''http://localhost:3000/blog/post'', Get ''http://localhost:3000/blog/post'',
       CloseBody, PrintStatus ''200 OK'', Sleep 1, PrintComplete],
      3)"
  by (simp add: main_def exampleEnv_def findAppDirectory_def possibleAppDirs_def
      findStaticRoutes_def WalkDir_def visit_def isPageFile_def Let_def
      HasPrefix_def HasSuffix_def relPathOf_def pathRoute_def routeString_def baseURL_def)

subsection \<open>The requests of \<open>main\<close>\<close>

lemma main_requests_by_length:
  assumes "mapRange_ok (mapRange env)" and "sortSlice_ok (sortSlice env)"
    and "findAppDirectory (osStat env) = Inr appPath"
    and "findStaticRoutes (fileTree env appPath) = Inr found"
  shows "\<exists>visited. requested (fst (snd (main env w))) = map ((@) baseURL) visited \<and>
    mset visited = mset_set found \<and> sorted (map length visited)"
proof -
  let ?routes = "mapRange env found"
  let ?less = "\<lambda>a b :: string. length a < length b"
  from assms(4) have "finite found" by (rule findStaticRoutes_finite)
  with assms(1) have keys: "set ?routes = found" "distinct ?routes"
    by (simp_all add: mapRange_ok_def)
  then have ms: "mset ?routes = mset_set found" by (metis mset_set_set)
  show ?thesis
  proof (cases "?routes = []")
    case True
    with assms(3,4) have "requested (fst (snd (main env w))) = map ((@) baseURL) []"
      by (simp add: main_def)
    moreover from True ms have "mset [] = mset_set found" by simp
    ultimately show ?thesis by (metis list.simps(8) sorted_simps(1))
  next
    case False
    let ?sorted = "sortSlice env ?routes ?less"
    from assms(2) have perm: "mset ?sorted = mset ?routes"
      and srt: "sorted_wrt (\<lambda>a b. \<not> length b < length a) ?sorted"
      by (simp_all add: sortSlice_ok_def)
    from srt have "sorted_wrt (\<lambda>a b. length a \<le> length b) ?sorted" by (simp only: not_less)
    then have s: "sorted (map length ?sorted)" by (simp only: sorted_map)
    from False assms(3,4) have "requested (fst (snd (main env w))) = map ((@) baseURL) ?sorted"
      by (simp add: main_def Let_def case_prod_beta requested_append warmUp_requested)
    with perm ms s show ?thesis by metis
  qed
qed

lemma sort_key_length_ok:
  "sortSlice_ok (\<lambda>xs less. sort_key length xs)" "sortSlice_ok (\<lambda>xs less. sort_key length (rev xs))"
proof -
  have "sorted_wrt (\<lambda>a b. length a \<le> length b) (sort_key length xs)" for xs :: "string list"
    using sorted_sort_key [of length xs] by (simp only: sorted_map)
  then show "sortSlice_ok (\<lambda>xs less. sort_key length xs)"
    and "sortSlice_ok (\<lambda>xs less. sort_key length (rev xs))"
    by (simp_all add: sortSlice_ok_def not_less)
qed

lemma equal_length_either_order:
  "\<exists>(env1 :: nat environment) (env2 :: nat environment).
     mapRange_ok (mapRange env1) \<and> sortSlice_ok (sortSlice env1) \<and>
     mapRange_ok (mapRange env2) \<and> sortSlice_ok (sortSlice env2) \<and>
     fileTree env1 = fileTree env2 \<and> osStat env1 = osStat env2 \<and>
     requested (fst (snd (main env1 0))) = [baseURL @ ''/abc'', baseURL @ ''/xyz''] \<and>
     requested (fst (snd (main env2 0))) = [baseURL @ ''/xyz'', baseURL @ ''/abc'']"
proof -
  let ?tree = "Present (Dir ''app'' [Dir ''abc'' [File ''page.tsx''], Dir ''xyz'' [File ''page.tsx'']])"
  let ?env1 = "exampleEnv ?tree"
  let ?env2 = "(exampleEnv ?tree)\<lparr>sortSlice := (\<lambda>xs less. sort_key length (rev xs))\<rparr>"
  have c1: "mapRange_ok (mapRange ?env1)" "sortSlice_ok (sortSlice ?env1)"
    by (rule exampleEnv_contracts)+
  have c2: "mapRange_ok (mapRange ?env2)" "sortSlice_ok (sortSlice ?env2)"
    using sort_key_length_ok(2) by (simp_all add: exampleEnv_def mapRange_ok_def)
  have same: "fileTree ?env1 = fileTree ?env2" "osStat ?env1 = osStat ?env2" by simp_all
  have r1: "requested (fst (snd (main ?env1 0))) = [baseURL @ ''/abc'', baseURL @ ''/xyz'']"
    by (simp add: main_def exampleEnv_def findAppDirectory_def possibleAppDirs_def
      findStaticRoutes_def WalkDir_def visit_def isPageFile_def Let_def
      HasPrefix_def HasSuffix_def relPathOf_def pathRoute_def routeString_def baseURL_def)
  have r2: "requested (fst (snd (main ?env2 0))) = [baseURL @ ''/xyz'', baseURL @ ''/abc'']"
    by (simp add: main_def exampleEnv_def findAppDirectory_def possibleAppDirs_def
      findStaticRoutes_def WalkDir_def visit_def isPageFile_def Let_def
      HasPrefix_def HasSuffix_def relPathOf_def pathRoute_def routeString_def baseURL_def)
  show ?thesis
    by (rule exI [where x = ?env1], rule exI [where x = ?env2]) (intro conjI c1 c2 same r1 r2)
qed

section \<open>The claims\<close>

text \<open>
  C1. The claim: a path with a segment that is exactly \<open>(.)\<close>, \<open>(..)\<close> or \<open>(...)\<close> is
  disqualified and gives no route. The loop tests for a route group before it tests for
  the three markers, and the group test lets only names that begin with \<open>(...\<close> through:
  \<open>(.)\<close> and \<open>(..)\<close> are passed over as groups, and the page below them gives a route.
  Only \<open>(...)\<close> reaches the marker test.
\<close>

theorem interceptor_markers_dot_and_dotdot_emit_route:
  "findStaticRoutes (Present (Dir ''app'' [Dir ''(.)'' [Dir ''photo'' [File ''page.tsx'']]]))
     = Inr {''/photo''} \<and>
   findStaticRoutes (Present (Dir ''app'' [Dir ''(..)'' [Dir ''photo'' [File ''page.tsx'']]]))
     = Inr {''/photo''} \<and>
   findStaticRoutes (Present (Dir ''app'' [Dir ''(...)'' [Dir ''photo'' [File ''page.tsx'']]]))
     = Inr {}"
  by code_simp

text \<open>
  C2, as stated, fails: the segment \<open>(...foo)\<close> starts with \<open>(\<close>, ends with \<open>)\<close> and is
  none of the three markers, yet the group test of the loop refuses every name that begins
  with \<open>(...\<close>, no later test holds for it, and it is appended: it is a component of the
  emitted route.
\<close>

theorem parenthesized_triple_dot_segment_kept:
  "HasPrefix ''(...foo)'' ''('' \<and> HasSuffix ''(...foo)'' '')'' \<and>
   ''(...foo)'' \<notin> {''(.)'', ''(..)'', ''(...)''} \<and>
   findStaticRoutes (Present (Dir ''app'' [Dir ''(...foo)'' [Dir ''bar'' [File ''page.tsx'']]]))
     = Inr {''/(...foo)/bar''} \<and>
   ''(...foo)'' \<in> set (Split ''/(...foo)/bar'' CHR ''/'')"
  by code_simp

text \<open>
  C2, amended. A segment \<open>g\<close> that starts with \<open>(\<close>, ends with \<open>)\<close>, does not start with
  \<open>(...\<close> and is not \<open>(.)\<close> or \<open>(..)\<close> is dropped. For every chain of directory names
  with \<open>g\<close> in it, the page below it gives the same result as below the chain without
  \<open>g\<close>: \<open>g\<close> contributes no component. When the loop runs to its end, what it has
  collected is the kept segments of the rest, in their order, and \<open>g\<close> is not among them.
  For every directory tree, \<open>g\<close> is not a component of any emitted route. The names are
  those of a file system: without \<open>/\<close>, and not \<open>.\<close>.
\<close>

theorem route_group_dropped:
  assumes "HasPrefix g ''(''" and "HasSuffix g '')''" and "\<not> HasPrefix g ''(...''"
    and "g \<noteq> ''(.)''" and "g \<noteq> ''(..)''"
    and "\<forall>n\<in>set (before @ g # after). CHR ''/'' \<notin> set n \<and> n \<noteq> ''.''"
  shows "pathRoute (relPathOf (before @ g # after)) = pathRoute (relPathOf (before @ after)) \<and>
    (\<forall>fin. segmentLoop (before @ g # after) [] = Inr fin \<longrightarrow>
       fin = filter isKept (before @ after) \<and> g \<notin> set fin) \<and>
    (\<forall>root R r. findStaticRoutes root = Inr R \<and> r \<in> R \<longrightarrow> g \<notin> set (Split r CHR ''/''))"
proof (intro conjI allI impI)
  from assms have grp: "isGroup g" by (simp add: isGroup_def)
  then have nk: "\<not> isKept g" by (simp add: isKept_def)
  from assms(6) have v: "\<forall>n\<in>set (before @ after). CHR ''/'' \<notin> set n \<and> n \<noteq> ''.''" by auto
  show "pathRoute (relPathOf (before @ g # after)) = pathRoute (relPathOf (before @ after))"
    by (simp only: pathRoute_here [OF assms(6)] pathRoute_here [OF v] segmentLoop_append_group [OF grp])
  {
    fix fin
    assume "segmentLoop (before @ g # after) [] = Inr fin"
    from segmentLoop_Inr_filter [OF this] nk
    show "fin = filter isKept (before @ after)" and "g \<notin> set fin" by auto
  }
  {
    fix root R r
    assume "findStaticRoutes root = Inr R \<and> r \<in> R"
    with findStaticRoutes_invariant [of "\<lambda>r. \<forall>c\<in>set (Split r CHR ''/''). c = [] \<or> isKept c" root R r]
      pathRoute_components
    have "\<forall>c\<in>set (Split r CHR ''/''). c = [] \<or> isKept c" by blast
    with nk assms(1) show "g \<notin> set (Split r CHR ''/'')" by (auto simp: HasPrefix_single)
  }
qed

theorem route_group_dropped_witness:
  "HasPrefix ''(marketing)'' ''('' \<and> HasSuffix ''(marketing)'' '')'' \<and>
   \<not> HasPrefix ''(marketing)'' ''(...'' \<and> ''(marketing)'' \<noteq> ''(.)'' \<and> ''(marketing)'' \<noteq> ''(..)'' \<and>
   CHR ''/'' \<notin> set ''shop'' \<and> ''shop'' \<noteq> ''.'' \<and> CHR ''/'' \<notin> set ''(marketing)'' \<and>
   ''(marketing)'' \<noteq> ''.'' \<and> CHR ''/'' \<notin> set ''cart'' \<and> ''cart'' \<noteq> ''.'' \<and>
   pathRoute (relPathOf ([''shop''] @ ''(marketing)'' # [''cart''])) = Inr ''/shop/cart'' \<and>
   findStaticRoutes (Present (Dir ''app'' [Dir ''shop'' [Dir ''(marketing)'' [Dir ''cart''
       [File ''page.tsx'']]]])) = Inr {''/shop/cart''} \<and>
   ''(marketing)'' \<notin> set (Split ''/shop/cart'' CHR ''/'')"
proof -
  have a: "HasPrefix ''(marketing)'' ''(''" "HasSuffix ''(marketing)'' '')''"
    "\<not> HasPrefix ''(marketing)'' ''(...''" "''(marketing)'' \<noteq> ''(.)''" "''(marketing)'' \<noteq> ''(..)''"
    by (simp_all add: HasPrefix_def HasSuffix_def)
  have v: "\<forall>n\<in>set ([''shop''] @ ''(marketing)'' # [''cart'']). CHR ''/'' \<notin> set n \<and> n \<noteq> ''.''"
    by simp
  note dropped = route_group_dropped [OF a v]
  have p: "pathRoute (relPathOf ([''shop''] @ [''cart''])) = Inr ''/shop/cart''"
    by code_simp
  have f: "findStaticRoutes (Present (Dir ''app'' [Dir ''shop'' [Dir ''(marketing)'' [Dir ''cart''
       [File ''page.tsx'']]]])) = Inr {''/shop/cart''}"
    by code_simp
  from dropped p
  have r: "pathRoute (relPathOf ([''shop''] @ ''(marketing)'' # [''cart''])) = Inr ''/shop/cart''"
    by (simp only:)
  have m: "''/shop/cart'' \<in> {''/shop/cart''}" by simp
  from dropped have "\<forall>root R r. findStaticRoutes root = Inr R \<and> r \<in> R \<longrightarrow>
      ''(marketing)'' \<notin> set (Split r CHR ''/'')"
    by (elim conjE)
  with f m have n: "''(marketing)'' \<notin> set (Split ''/shop/cart'' CHR ''/'')" by blast
  have v': "CHR ''/'' \<notin> set ''shop'' \<and> ''shop'' \<noteq> ''.'' \<and> CHR ''/'' \<notin> set ''(marketing)'' \<and>
    ''(marketing)'' \<noteq> ''.'' \<and> CHR ''/'' \<notin> set ''cart'' \<and> ''cart'' \<noteq> ''.''"
    by simp
  from a v' r f n show ?thesis by (simp only: conj_assoc simp_thms)
qed

text \<open>
  C3. The tree with the one page \<open>a/b/c/page.tsx\<close> gives exactly the route \<open>/a/b/c\<close>, and
  so does the tree that also has \<open>a/b/c/[id]/page.tsx\<close>: the page of the dynamic child is
  skipped, the route of its parent stays. In general the walk of a directory with a
  dynamic name, wherever it lies and whatever it holds, adds no route and takes none
  away.
\<close>

theorem dynamic_child_leaves_parent_route:
  "findStaticRoutes (Present (Dir ''app'' [Dir ''a'' [Dir ''b'' [Dir ''c'' [File ''page.tsx'']]]]))
     = Inr {''/a/b/c''} \<and>
   findStaticRoutes (Present (Dir ''app'' [Dir ''a'' [Dir ''b'' [Dir ''c''
       [Dir ''[id]'' [File ''page.tsx''], File ''page.tsx'']]]]))
     = Inr {''/a/b/c''} \<and>
   (HasPrefix name ''['' \<and> HasSuffix name '']'' \<and> CHR ''/'' \<notin> set name \<and>
    walkDir here (Dir name entries) st = Inr st' \<longrightarrow> routeSet st' = routeSet st)"
proof (intro conjI impI)
  show "findStaticRoutes (Present (Dir ''app'' [Dir ''a'' [Dir ''b'' [Dir ''c'' [File ''page.tsx'']]]]))
     = Inr {''/a/b/c''}"
    by code_simp
  show "findStaticRoutes (Present (Dir ''app'' [Dir ''a'' [Dir ''b'' [Dir ''c''
       [Dir ''[id]'' [File ''page.tsx''], File ''page.tsx'']]]]))
     = Inr {''/a/b/c''}"
    by code_simp
next
  assume a: "HasPrefix name ''['' \<and> HasSuffix name '']'' \<and> CHR ''/'' \<notin> set name \<and>
    walkDir here (Dir name entries) st = Inr st'"
  then have "name \<noteq> [] \<and> \<not> isGroup name \<and> \<not> isKept name"
    by (auto simp: isGroup_def isKept_def HasPrefix_single)
  with a have "\<exists>s\<in>set (here @ [name]). CHR ''/'' \<notin> set s \<and> s \<noteq> [] \<and> \<not> isGroup s \<and> \<not> isKept s"
    by simp
  from walk_below_disqualified(2) [OF this, of entries st st'] a
  show "routeSet st' = routeSet st" by (simp add: visit_def isPageFile_def)
qed

theorem dynamic_child_leaves_parent_route_witness:
  "HasPrefix ''[id]'' ''['' \<and> HasSuffix ''[id]'' '']'' \<and> CHR ''/'' \<notin> set ''[id]'' \<and>
   walkDir [''a'', ''b'', ''c''] (Dir ''[id]'' [File ''page.tsx'']) \<lparr>routeSet = {''/a/b/c''}, logged = []\<rparr>
     = Inr \<lparr>routeSet = {''/a/b/c''}, logged = [(DynamicRoute, ''/a/b/c/[id]'')]\<rparr> \<and>
   routeSet \<lparr>routeSet = {''/a/b/c''}, logged = [(DynamicRoute, ''/a/b/c/[id]'')]\<rparr>
     = routeSet \<lparr>routeSet = {''/a/b/c''}, logged = []\<rparr>"
proof -
  have h: "HasPrefix ''[id]'' ''['' \<and> HasSuffix ''[id]'' '']'' \<and> CHR ''/'' \<notin> set ''[id]'' \<and>
   walkDir [''a'', ''b'', ''c''] (Dir ''[id]'' [File ''page.tsx'']) \<lparr>routeSet = {''/a/b/c''}, logged = []\<rparr>
     = Inr \<lparr>routeSet = {''/a/b/c''}, logged = [(DynamicRoute, ''/a/b/c/[id]'')]\<rparr>"
    by (simp add: visit_def isPageFile_def HasPrefix_def HasSuffix_def relPathOf_def pathRoute_def
        routeString_def)
  note T = dynamic_child_leaves_parent_route [of "''[id]''" "[''a'', ''b'', ''c'']" "[File ''page.tsx'']"
      "\<lparr>routeSet = {''/a/b/c''}, logged = []\<rparr>"
      "\<lparr>routeSet = {''/a/b/c''}, logged = [(DynamicRoute, ''/a/b/c/[id]'')]\<rparr>"]
  have c: "routeSet \<lparr>routeSet = {''/a/b/c''}, logged = [(DynamicRoute, ''/a/b/c/[id]'')]\<rparr>
     = routeSet \<lparr>routeSet = {''/a/b/c''}, logged = []\<rparr>"
    by (rule T [THEN conjunct2, THEN conjunct2, THEN mp, OF h])
  from h c show ?thesis by (simp only: conj_assoc simp_thms)
qed

text \<open>
  C4. A path with a segment that begins with \<open>_\<close> gives no route, whatever its other
  segments are: the callback returns early for it and leaves \<open>routeSet\<close> as it was. For
  every directory tree, the walk of a directory whose name begins with \<open>_\<close>, wherever it
  lies and whatever it holds, adds no route.
\<close>

theorem private_segment_never_contributes:
  "((\<exists>s\<in>set (Split (routeString rel) CHR ''/''). HasPrefix s ''_'') \<longrightarrow>
      (\<exists>reason. pathRoute rel = Inl reason) \<and>
      routeSet (visit rel fileName isDir st) = routeSet st) \<and>
   (HasPrefix name ''_'' \<and> walkDir here (Dir name entries) st = Inr st' \<longrightarrow>
      routeSet st' = routeSet st)"
proof (intro conjI impI)
  assume p: "\<exists>s\<in>set (Split (routeString rel) CHR ''/''). HasPrefix s ''_''"
  then show "\<exists>reason. pathRoute rel = Inl reason" by (rule pathRoute_private)
  from p show "routeSet (visit rel fileName isDir st) = routeSet st" by (rule visit_private)
next
  assume a: "HasPrefix name ''_'' \<and> walkDir here (Dir name entries) st = Inr st'"
  have v: "visit (relPathOf here) name True st = st" by (simp add: visit_def isPageFile_def)
  from a have "\<exists>s\<in>set (here @ [name]). HasPrefix s ''_''" by simp
  from walk_below_private(2) [OF this, of entries st st'] a v
  show "routeSet st' = routeSet st" by simp
qed

theorem private_segment_never_contributes_witness:
  "(\<exists>s\<in>set (Split (routeString ''blog/_drafts/post'') CHR ''/''). HasPrefix s ''_'') \<and>
   (\<exists>reason. pathRoute ''blog/_drafts/post'' = Inl reason) \<and>
   routeSet (visit ''blog/_drafts/post'' ''page.tsx'' False \<lparr>routeSet = {''/''}, logged = []\<rparr>) = {''/''} \<and>
   HasPrefix ''_lib'' ''_'' \<and>
   walkDir [''blog''] (Dir ''_lib'' [Dir ''ui'' [File ''page.tsx'']]) \<lparr>routeSet = {''/''}, logged = []\<rparr>
     = Inr \<lparr>routeSet = {''/''}, logged = [(PrivateSegment, ''/blog/_lib/ui'')]\<rparr> \<and>
   routeSet \<lparr>routeSet = {''/''}, logged = [(PrivateSegment, ''/blog/_lib/ui'')]\<rparr> = {''/''}"
proof -
  have sp: "Split (routeString ''blog/_drafts/post'') CHR ''/'' = [[], ''blog'', ''_drafts'', ''post'']"
    by (simp add: routeString_def)
  have h1: "\<exists>s\<in>set (Split (routeString ''blog/_drafts/post'') CHR ''/''). HasPrefix s ''_''"
    by (simp add: sp HasPrefix_def)
  have h2: "HasPrefix ''_lib'' ''_''" by (simp add: HasPrefix_def)
  have h3: "walkDir [''blog''] (Dir ''_lib'' [Dir ''ui'' [File ''page.tsx'']]) \<lparr>routeSet = {''/''}, logged = []\<rparr>
     = Inr \<lparr>routeSet = {''/''}, logged = [(PrivateSegment, ''/blog/_lib/ui'')]\<rparr>"
    by (simp add: visit_def isPageFile_def HasPrefix_def HasSuffix_def relPathOf_def pathRoute_def
        routeString_def)
  note T = private_segment_never_contributes [of "''blog/_drafts/post''" "''page.tsx''" False
      "\<lparr>routeSet = {''/''}, logged = []\<rparr>" "''_lib''" "[''blog'']" "[Dir ''ui'' [File ''page.tsx'']]"
      "\<lparr>routeSet = {''/''}, logged = [(PrivateSegment, ''/blog/_lib/ui'')]\<rparr>"]
  have c1: "(\<exists>reason. pathRoute ''blog/_drafts/post'' = Inl reason) \<and>
      routeSet (visit ''blog/_drafts/post'' ''page.tsx'' False \<lparr>routeSet = {''/''}, logged = []\<rparr>)
        = routeSet \<lparr>routeSet = {''/''}, logged = []\<rparr>"
    by (rule T [THEN conjunct1, THEN mp, OF h1])
  have c2: "routeSet \<lparr>routeSet = {''/''}, logged = [(PrivateSegment, ''/blog/_lib/ui'')]\<rparr>
      = routeSet \<lparr>routeSet = {''/''}, logged = []\<rparr>"
    by (rule T [THEN conjunct2, THEN mp, OF conjI [OF h2 h3]])
  from c1 have c1': "(\<exists>reason. pathRoute ''blog/_drafts/post'' = Inl reason) \<and>
      routeSet (visit ''blog/_drafts/post'' ''page.tsx'' False \<lparr>routeSet = {''/''}, logged = []\<rparr>) = {''/''}"
    by simp
  from c2 have c2': "routeSet \<lparr>routeSet = {''/''}, logged = [(PrivateSegment, ''/blog/_lib/ui'')]\<rparr> = {''/''}"
    by simp
  from c1' have c1a: "\<exists>reason. pathRoute ''blog/_drafts/post'' = Inl reason"
    and c1b: "routeSet (visit ''blog/_drafts/post'' ''page.tsx'' False \<lparr>routeSet = {''/''}, logged = []\<rparr>) = {''/''}"
    by (rule conjunct1, rule conjunct2)
  show ?thesis by (intro conjI h1 c1a c1b h2 h3 c2')
qed

text \<open>
  C5. Every route that discovery emits, for every directory tree, begins with \<open>/\<close> and
  ends with \<open>/\<close> only if it is the route \<open>/\<close> itself. The root directory gives the route
  \<open>/\<close>, and so does every chain of directories all of which the loop drops as groups.
\<close>

theorem emitted_routes_canonical:
  "(findStaticRoutes root = Inr R \<longrightarrow>
      (\<forall>r\<in>R. HasPrefix r ''/'' \<and> (HasSuffix r ''/'' \<longrightarrow> r = ''/''))) \<and>
   pathRoute (relPathOf []) = Inr ''/'' \<and>
   ((\<forall>g\<in>set groups. isGroup g \<and> CHR ''/'' \<notin> set g) \<longrightarrow>
      pathRoute (relPathOf groups) = Inr ''/'')"
proof (intro conjI impI ballI)
  fix r
  assume "findStaticRoutes root = Inr R" "r \<in> R"
  with findStaticRoutes_invariant [of "\<lambda>r. HasPrefix r ''/'' \<and> (HasSuffix r ''/'' \<longrightarrow> r = ''/'')" root R r]
  show "HasPrefix r ''/''" and "HasSuffix r ''/'' \<Longrightarrow> r = ''/''"
    using pathRoute_canonical by blast+
next
  show "pathRoute (relPathOf []) = Inr ''/''"
    by (simp add: pathRoute_here)
next
  assume g: "\<forall>g\<in>set groups. isGroup g \<and> CHR ''/'' \<notin> set g"
  then have "\<forall>n\<in>set groups. CHR ''/'' \<notin> set n \<and> n \<noteq> ''.''"
    using isGroup_not_dot by blast
  from pathRoute_here [OF this] g show "pathRoute (relPathOf groups) = Inr ''/''"
    by (simp add: segmentLoop_groups)
qed

theorem emitted_routes_canonical_witness:
  "findStaticRoutes (Present (Dir ''app'' [Dir ''blog'' [Dir ''post'' [File ''page.tsx'']],
       File ''page.js'']))
     = Inr {''/blog/post'', ''/''} \<and>
   HasPrefix ''/blog/post'' ''/'' \<and> \<not> HasSuffix ''/blog/post'' ''/'' \<and> HasPrefix ''/'' ''/'' \<and>
   isGroup ''(marketing)'' \<and> CHR ''/'' \<notin> set ''(marketing)'' \<and>
   isGroup ''(shop)'' \<and> CHR ''/'' \<notin> set ''(shop)'' \<and>
   pathRoute (relPathOf [''(marketing)'', ''(shop)'']) = Inr ''/''"
proof -
  let ?tree = "Present (Dir ''app'' [Dir ''blog'' [Dir ''post'' [File ''page.tsx'']],
       File ''page.js''])"
  have h: "findStaticRoutes ?tree = Inr {''/blog/post'', ''/''}"
    by code_simp
  have g1: "isGroup ''(marketing)'' \<and> CHR ''/'' \<notin> set ''(marketing)''"
    and g2: "isGroup ''(shop)'' \<and> CHR ''/'' \<notin> set ''(shop)''"
    by (simp_all add: isGroup_def HasPrefix_def HasSuffix_def)
  then have g: "\<forall>g\<in>set [''(marketing)'', ''(shop)'']. isGroup g \<and> CHR ''/'' \<notin> set g"
    by simp
  note T = emitted_routes_canonical [of ?tree "{''/blog/post'', ''/''}" "[''(marketing)'', ''(shop)'']"]
  note all_canonical = T [THEN conjunct1, THEN mp, OF h]
  have m1: "''/blog/post'' \<in> {''/blog/post'', ''/''}" and m2: "''/'' \<in> {''/blog/post'', ''/''}"
    by simp_all
  from bspec [OF all_canonical m1]
  have c1: "HasPrefix ''/blog/post'' ''/'' \<and> \<not> HasSuffix ''/blog/post'' ''/''" by auto
  from bspec [OF all_canonical m2] have c2: "HasPrefix ''/'' ''/''" by (rule conjunct1)
  note c3 = T [THEN conjunct2, THEN conjunct2, THEN mp, OF g]
  from h c1 c2 g1 g2 c3 show ?thesis by (simp only: conj_assoc simp_thms)
qed

text \<open>
  C6. Whatever order the map iteration and \<open>sort.Slice\<close> choose within their contracts,
  the requests that \<open>main\<close> sends are the base URL followed by the routes \<open>visited\<close>,
  where \<open>visited\<close> holds every discovered route exactly once and is in ascending order
  of length. The order of routes of equal length is open: for the two routes \<open>/abc\<close> and
  \<open>/xyz\<close> there are environments within the contracts that give either order.
\<close>

theorem warmup_visits_each_route_once_by_length:
  "(mapRange_ok (mapRange env) \<and> sortSlice_ok (sortSlice env) \<and>
    findAppDirectory (osStat env) = Inr appPath \<and>
    findStaticRoutes (fileTree env appPath) = Inr found \<longrightarrow>
      (\<exists>visited. requested (fst (snd (main env w))) = map ((@) baseURL) visited \<and>
         mset visited = mset_set found \<and> sorted (map length visited))) \<and>
   (\<exists>(env1 :: nat environment) (env2 :: nat environment).
      mapRange_ok (mapRange env1) \<and> sortSlice_ok (sortSlice env1) \<and>
      mapRange_ok (mapRange env2) \<and> sortSlice_ok (sortSlice env2) \<and>
      fileTree env1 = fileTree env2 \<and> osStat env1 = osStat env2 \<and>
      requested (fst (snd (main env1 0))) = [baseURL @ ''/abc'', baseURL @ ''/xyz''] \<and>
      requested (fst (snd (main env2 0))) = [baseURL @ ''/xyz'', baseURL @ ''/abc''])"
proof (intro conjI impI)
  assume "mapRange_ok (mapRange env) \<and> sortSlice_ok (sortSlice env) \<and>
    findAppDirectory (osStat env) = Inr appPath \<and>
    findStaticRoutes (fileTree env appPath) = Inr found"
  then have "mapRange_ok (mapRange env)" and "sortSlice_ok (sortSlice env)"
    and "findAppDirectory (osStat env) = Inr appPath"
    and "findStaticRoutes (fileTree env appPath) = Inr found"
    by simp_all
  then show "\<exists>visited. requested (fst (snd (main env w))) = map ((@) baseURL) visited \<and>
         mset visited = mset_set found \<and> sorted (map length visited)"
    by (rule main_requests_by_length)
next
  show "\<exists>(env1 :: nat environment) (env2 :: nat environment).
      mapRange_ok (mapRange env1) \<and> sortSlice_ok (sortSlice env1) \<and>
      mapRange_ok (mapRange env2) \<and> sortSlice_ok (sortSlice env2) \<and>
      fileTree env1 = fileTree env2 \<and> osStat env1 = osStat env2 \<and>
      requested (fst (snd (main env1 0))) = [baseURL @ ''/abc'', baseURL @ ''/xyz''] \<and>
      requested (fst (snd (main env2 0))) = [baseURL @ ''/xyz'', baseURL @ ''/abc'']"
    by (rule equal_length_either_order)
qed

theorem warmup_visits_each_route_once_by_length_witness:
  "mapRange_ok (mapRange (exampleEnv (Present (Dir ''app'' [Dir ''blog'' [Dir ''post''
       [File ''page.tsx'']], Dir ''about'' [File ''page.tsx''], File ''page.tsx''])))) \<and>
   sortSlice_ok (sortSlice (exampleEnv (Present (Dir ''app'' [Dir ''blog'' [Dir ''post''
       [File ''page.tsx'']], Dir ''about'' [File ''page.tsx''], File ''page.tsx''])))) \<and>
   findAppDirectory (osStat (exampleEnv (Present (Dir ''app'' [Dir ''blog'' [Dir ''post''
       [File ''page.tsx'']], Dir ''about'' [File ''page.tsx''], File ''page.tsx''])))) = Inr ''app'' \<and>
   findStaticRoutes (fileTree (exampleEnv (Present (Dir ''app'' [Dir ''blog'' [Dir ''post''
       [File ''page.tsx'']], Dir ''about'' [File ''page.tsx''], File ''page.tsx'']))) ''app'')
     = Inr {''/blog/post'', ''/about'', ''/''} \<and>
   (\<exists>visited. requested (fst (snd (main (exampleEnv (Present (Dir ''app'' [Dir ''blog'' [Dir ''post''
       [File ''page.tsx'']], Dir ''about'' [File ''page.tsx''], File ''page.tsx'']))) 0)))
       = map ((@) baseURL) visited \<and>
     mset visited = mset_set {''/blog/post'', ''/about'', ''/''} \<and> sorted (map length visited))"
proof -
  let ?tree = "Present (Dir ''app'' [Dir ''blog'' [Dir ''post''
       [File ''page.tsx'']], Dir ''about'' [File ''page.tsx''], File ''page.tsx''])"
  have f: "findStaticRoutes (fileTree (exampleEnv ?tree) ''app'') = Inr {''/blog/post'', ''/about'', ''/''}"
    by (simp add: exampleEnv_def findStaticRoutes_def WalkDir_def visit_def isPageFile_def
        HasPrefix_def HasSuffix_def relPathOf_def pathRoute_def routeString_def insert_commute)
  note hyps = conjI [OF exampleEnv_contracts(1) conjI [OF exampleEnv_contracts(2)
      conjI [OF exampleEnv_app f]]]
  note visited = warmup_visits_each_route_once_by_length
      [of "exampleEnv ?tree" "''app''" "{''/blog/post'', ''/about'', ''/''}" 0,
       THEN conjunct1, THEN mp, OF hyps]
  from hyps visited show ?thesis by (simp only: conj_assoc simp_thms)
qed

text \<open>
  C7. The loop requests every route of its list, in order, whatever the answers are,
  and every request is followed by a pause of one second before the next request or the
  end. When the request for \<open>route\<close> fails, the trace goes on with the printed error,
  the pause, and the whole run over the routes after it.
\<close>

theorem failed_request_never_stops_loop:
  "requested (fst (warmUp get routes w)) = map ((@) baseURL) routes \<and>
   pacing (fst (warmUp get routes w))
     = concat (map (\<lambda>route. [Get (baseURL @ route), Sleep 1]) routes) \<and>
   (routes = before @ route # after \<and> snd (warmUp get before w) = w1 \<and>
    get w1 (baseURL @ route) = (Failed err, w2) \<longrightarrow>
      fst (warmUp get routes w)
        = fst (warmUp get before w)
          @ [PrintGet (baseURL @ route), Get (baseURL @ route), PrintError err, Sleep 1]
          @ fst (warmUp get after w2) \<and>
      requested (fst (warmUp get after w2)) = map ((@) baseURL) after)"
proof (intro conjI impI)
  show "requested (fst (warmUp get routes w)) = map ((@) baseURL) routes"
    by (rule warmUp_requested)
  show "pacing (fst (warmUp get routes w))
     = concat (map (\<lambda>route. [Get (baseURL @ route), Sleep 1]) routes)"
    by (rule warmUp_pacing)
next
  assume a: "routes = before @ route # after \<and> snd (warmUp get before w) = w1 \<and>
    get w1 (baseURL @ route) = (Failed err, w2)"
  then have "fst (warmUp get (route # after) w1)
      = [PrintGet (baseURL @ route), Get (baseURL @ route), PrintError err, Sleep 1]
        @ fst (warmUp get after w2)"
    by (simp add: warmUp_Cons del: warmUp.simps(2))
  with a show "fst (warmUp get routes w)
        = fst (warmUp get before w)
          @ [PrintGet (baseURL @ route), Get (baseURL @ route), PrintError err, Sleep 1]
          @ fst (warmUp get after w2)"
    by (simp add: warmUp_append del: warmUp.simps(2))
  show "requested (fst (warmUp get after w2)) = map ((@) baseURL) after"
    by (rule warmUp_requested)
qed

theorem failed_request_never_stops_loop_witness:
  "[''/'', ''/about'', ''/blog/post''] = [''/''] @ ''/about'' # [''/blog/post''] \<and>
   snd (warmUp (\<lambda>w url. (if even w then Response ''200 OK'' else Failed ''timeout'', Suc w))
          [''/''] (0::nat)) = 1 \<and>
   (\<lambda>w url. (if even w then Response ''200 OK'' else Failed ''timeout'', Suc w))
      (1::nat) (baseURL @ ''/about'') = (Failed ''timeout'', 2) \<and>
   fst (warmUp (\<lambda>w url. (if even w then Response ''200 OK'' else Failed ''timeout'', Suc w))
          [''/'', ''/about'', ''/blog/post''] (0::nat))
     = fst (warmUp (\<lambda>w url. (if even w then Response ''200 OK'' else Failed ''timeout'', Suc w))
              [''/''] (0::nat))
       @ [PrintGet (baseURL @ ''/about''), Get (baseURL @ ''/about''), PrintError ''timeout'', Sleep 1]
       @ fst (warmUp (\<lambda>w url. (if even w then Response ''200 OK'' else Failed ''timeout'', Suc w))
              [''/blog/post''] (2::nat)) \<and>
   requested (fst (warmUp (\<lambda>w url. (if even w then Response ''200 OK'' else Failed ''timeout'', Suc w))
              [''/blog/post''] (2::nat)))
     = map ((@) baseURL) [''/blog/post'']"
proof -
  let ?get = "\<lambda>(w::nat) (url::string). (if even w then Response ''200 OK'' else Failed ''timeout'', Suc w)"
  have h: "[''/'', ''/about'', ''/blog/post''] = [''/''] @ ''/about'' # [''/blog/post''] \<and>
      snd (warmUp ?get [''/''] 0) = 1 \<and> ?get 1 (baseURL @ ''/about'') = (Failed ''timeout'', 2)"
    by (simp add: Let_def)
  note T = failed_request_never_stops_loop [of ?get "[''/'', ''/about'', ''/blog/post'']" 0
      "[''/'']" "''/about''" "[''/blog/post'']" 1 "''timeout''" 2]
  note c = T [THEN conjunct2, THEN conjunct2, THEN mp, OF h]
  from h c show ?thesis by (simp only: conj_assoc simp_thms)
qed

text \<open>
  C8. When the root is missing or a directory of the tree cannot be read,
  \<open>findStaticRoutes\<close> returns the error and no routes, also when pages were found before
  the failure; \<open>main\<close> then ends with the fatal message, having sent no request.
\<close>

theorem traversal_error_is_fatal:
  "(\<not> walkable root \<longrightarrow> (\<exists>err. findStaticRoutes root = Inl err)) \<and>
   (findAppDirectory (osStat env) = Inr appPath \<and> \<not> walkable (fileTree env appPath) \<longrightarrow>
      (\<exists>msg. main env w = (ExitFatal msg, [LogFoundApp appPath, PrintDiscovering], w)) \<and>
      requested (fst (snd (main env w))) = [])"
proof (intro conjI impI)
  assume "\<not> walkable root"
  then show "\<exists>err. findStaticRoutes root = Inl err" by (simp add: findStaticRoutes_fails_iff)
next
  assume a: "findAppDirectory (osStat env) = Inr appPath \<and> \<not> walkable (fileTree env appPath)"
  then obtain err where "findStaticRoutes (fileTree env appPath) = Inl err"
    using findStaticRoutes_fails_iff by blast
  with a have m: "main env w =
      (ExitFatal (''Error discovering routes: '' @ (case err of IOError msg \<Rightarrow> msg)),
       [LogFoundApp appPath, PrintDiscovering], w)"
    by (cases err) (simp add: main_def)
  then show "\<exists>msg. main env w = (ExitFatal msg, [LogFoundApp appPath, PrintDiscovering], w)"
    by blast
  from m show "requested (fst (snd (main env w))) = []" by simp
qed

theorem traversal_error_is_fatal_witness:
  "\<not> walkable (Present (Dir ''app'' [File ''page.tsx'',
        Unreadable ''admin'' (IOError ''permission denied'')])) \<and>
   findAppDirectory (osStat (exampleEnv (Present (Dir ''app'' [File ''page.tsx'',
        Unreadable ''admin'' (IOError ''permission denied'')])))) = Inr ''app'' \<and>
   \<not> walkable (fileTree (exampleEnv (Present (Dir ''app'' [File ''page.tsx'',
        Unreadable ''admin'' (IOError ''permission denied'')]))) ''app'') \<and>
   (\<exists>err. findStaticRoutes (Present (Dir ''app'' [File ''page.tsx'',
        Unreadable ''admin'' (IOError ''permission denied'')])) = Inl err) \<and>
   (\<exists>msg. main (exampleEnv (Present (Dir ''app'' [File ''page.tsx'',
        Unreadable ''admin'' (IOError ''permission denied'')]))) 0
      = (ExitFatal msg, [LogFoundApp ''app'', PrintDiscovering], 0)) \<and>
   requested (fst (snd (main (exampleEnv (Present (Dir ''app'' [File ''page.tsx'',
        Unreadable ''admin'' (IOError ''permission denied'')]))) 0))) = []"
proof -
  let ?tree = "Present (Dir ''app'' [File ''page.tsx'',
        Unreadable ''admin'' (IOError ''permission denied'')])"
  have h1: "\<not> walkable ?tree" by (simp add: walkable_def)
  have h2: "findAppDirectory (osStat (exampleEnv ?tree)) = Inr ''app''"
    by (simp add: exampleEnv_def findAppDirectory_def possibleAppDirs_def)
  have h3: "\<not> walkable (fileTree (exampleEnv ?tree) ''app'')"
    by (simp add: exampleEnv_def walkable_def)
  note T = traversal_error_is_fatal [of ?tree "exampleEnv ?tree" "''app''" 0]
  note c1 = T [THEN conjunct1, THEN mp, OF h1]
  note c2 = T [THEN conjunct2, THEN mp, OF conjI [OF h2 h3]]
  from h1 h2 h3 c1 c2 show ?thesis by (simp only: conj_assoc simp_thms)
qed

text \<open>
  C9. A segment that begins with one of the markers \<open>(.)\<close>, \<open>(..)\<close>, \<open>(...)\<close> and does not
  end with \<open>)\<close> meets none of the tests of the loop: the loop appends it. A page directly
  below such a directory gives the route made of that name, and whenever a path with such
  a segment gives a route, the segment is a component of the route, verbatim.
\<close>

theorem interceptor_prefixed_segment_plain:
  assumes "HasPrefix seg ''(.)'' \<or> HasPrefix seg ''(..)'' \<or> HasPrefix seg ''(...)''"
    and "\<not> HasSuffix seg '')''"
  shows "segmentLoop (seg # rest) acc = segmentLoop rest (acc @ [seg]) \<and>
    (CHR ''/'' \<notin> set seg \<longrightarrow>
       pathRoute (relPathOf [seg]) = Inr (''/'' @ seg) \<and>
       findStaticRoutes (Present (Dir root [Dir seg [File ''page.tsx'']])) = Inr {''/'' @ seg}) \<and>
    (\<forall>before after r.
       (\<forall>n\<in>set (before @ seg # after). CHR ''/'' \<notin> set n \<and> n \<noteq> ''.'') \<and>
       pathRoute (relPathOf (before @ seg # after)) = Inr r \<longrightarrow>
       seg \<in> set (Split r CHR ''/''))"
proof -
  from assms(1) obtain t where seg: "seg = CHR ''('' # CHR ''.'' # t"
    by (auto simp: HasPrefix_iff)
  with assms(2) have kept: "isKept seg"
    by (auto simp: isKept_def isGroup_def HasPrefix_single HasSuffix_single)
  then have loop: "segmentLoop (seg # rest) acc = segmentLoop rest (acc @ [seg])" for rest acc
    by (simp add: segmentLoop_Cons_cases isKept_def del: segmentLoop.simps(2))
  have one: "pathRoute (relPathOf [seg]) = Inr (''/'' @ seg)" if "CHR ''/'' \<notin> set seg"
  proof -
    from that seg have "\<forall>n\<in>set [seg]. CHR ''/'' \<notin> set n \<and> n \<noteq> ''.''" by simp
    from pathRoute_here [OF this] show ?thesis by (simp add: loop del: segmentLoop.simps(2))
  qed
  have tree: "findStaticRoutes (Present (Dir root [Dir seg [File ''page.tsx'']])) = Inr {''/'' @ seg}"
    if "CHR ''/'' \<notin> set seg"
  proof -
    have "isPageFile ''page.tsx'' False" by (simp add: isPageFile_def HasPrefix_def HasSuffix_def)
    with one [OF that] show ?thesis
      by (simp add: findStaticRoutes_def WalkDir_def visit_def isPageFile_def)
  qed
  have mem: "seg \<in> set (Split r CHR ''/'')"
    if v: "\<forall>n\<in>set (before @ seg # after). CHR ''/'' \<notin> set n \<and> n \<noteq> ''.''"
      and r: "pathRoute (relPathOf (before @ seg # after)) = Inr r" for before after r
  proof -
    from r pathRoute_here [OF v] obtain fin
      where fin: "segmentLoop (before @ seg # after) [] = Inr fin" and r': "r = ''/'' @ Join fin ''/''"
      by (auto split: sum.splits)
    from segmentLoop_Inr_filter [OF fin] kept have in_fin: "seg \<in> set fin" by simp
    from segmentLoop_Inr_filter [OF fin] v have "\<forall>n\<in>set fin. CHR ''/'' \<notin> set n" by auto
    with in_fin have "Split (Join fin ''/'') CHR ''/'' = fin" by (intro Split_Join) auto
    with r' in_fin show ?thesis by simp
  qed
  show ?thesis
  proof (intro conjI impI allI)
    show "segmentLoop (seg # rest) acc = segmentLoop rest (acc @ [seg])" by (rule loop)
  next
    assume "CHR ''/'' \<notin> set seg"
    then show "pathRoute (relPathOf [seg]) = Inr (''/'' @ seg)" by (rule one)
  next
    assume "CHR ''/'' \<notin> set seg"
    then show "findStaticRoutes (Present (Dir root [Dir seg [File ''page.tsx'']])) = Inr {''/'' @ seg}"
      by (rule tree)
  next
    fix before after r
    assume "(\<forall>n\<in>set (before @ seg # after). CHR ''/'' \<notin> set n \<and> n \<noteq> ''.'') \<and>
       pathRoute (relPathOf (before @ seg # after)) = Inr r"
    then show "seg \<in> set (Split r CHR ''/'')" using mem by blast
  qed
qed

theorem interceptor_prefixed_segment_plain_witness:
  "(HasPrefix ''(..)photo'' ''(.)'' \<or> HasPrefix ''(..)photo'' ''(..)'' \<or> HasPrefix ''(..)photo'' ''(...)'') \<and>
   \<not> HasSuffix ''(..)photo'' '')'' \<and> CHR ''/'' \<notin> set ''(..)photo'' \<and>
   pathRoute (relPathOf [''(..)photo'']) = Inr ''/(..)photo'' \<and>
   findStaticRoutes (Present (Dir ''app'' [Dir ''(..)photo'' [File ''page.tsx'']])) = Inr {''/(..)photo''}"
proof -
  have a: "HasPrefix ''(..)photo'' ''(.)'' \<or> HasPrefix ''(..)photo'' ''(..)'' \<or> HasPrefix ''(..)photo'' ''(...)''"
    and b: "\<not> HasSuffix ''(..)photo'' '')''" and c: "CHR ''/'' \<notin> set ''(..)photo''"
    by (simp_all add: HasPrefix_def HasSuffix_def)
  note plain = interceptor_prefixed_segment_plain [OF a b, of "[]" "[]" "''app''"]
  from plain have "CHR ''/'' \<notin> set ''(..)photo'' \<longrightarrow>
       pathRoute (relPathOf [''(..)photo'']) = Inr (''/'' @ ''(..)photo'') \<and>
       findStaticRoutes (Present (Dir ''app'' [Dir ''(..)photo'' [File ''page.tsx'']]))
         = Inr {''/'' @ ''(..)photo''}"
    by (elim conjE)
  with c have "pathRoute (relPathOf [''(..)photo'']) = Inr (''/'' @ ''(..)photo'') \<and>
       findStaticRoutes (Present (Dir ''app'' [Dir ''(..)photo'' [File ''page.tsx'']]))
         = Inr {''/'' @ ''(..)photo''}"
    by (rule rev_mp)
  then have d: "pathRoute (relPathOf [''(..)photo'']) = Inr ''/(..)photo'' \<and>
       findStaticRoutes (Present (Dir ''app'' [Dir ''(..)photo'' [File ''page.tsx'']]))
         = Inr {''/(..)photo''}"
    by (simp only: append.simps)
  from a b c d show ?thesis by (intro conjI) (elim conjE, assumption)+
qed

text \<open>
  C10. \<open>findAppDirectory\<close> returns \<open>app\<close> whenever \<open>os.Stat\<close> succeeds on it, whatever
  the entry is and whether or not \<open>src/app\<close> exists; it returns \<open>src/app\<close> only when
  \<open>os.Stat\<close> fails on \<open>app\<close>; it ends the program when both fail. The description of
  the entry that \<open>os.Stat\<close> returns is not looked at, so a file passes as well.
\<close>

theorem findAppDirectory_prefers_app:
  "(st ''app'' = Inr info \<longrightarrow> findAppDirectory st = Inr ''app'') \<and>
   (st ''app'' = Inl err \<and> st ''src/app'' = Inr info \<longrightarrow> findAppDirectory st = Inr ''src/app'') \<and>
   (findAppDirectory st = Inr ''src/app'' \<longrightarrow> (\<exists>e. st ''app'' = Inl e)) \<and>
   (st ''app'' = Inl err \<and> st ''src/app'' = Inl err' \<longrightarrow> (\<exists>msg. findAppDirectory st = Inl msg))"
  by (auto simp: findAppDirectory_def possibleAppDirs_def findAppLoop_two split: sum.splits
      simp del: findAppLoop.simps)

theorem findAppDirectory_prefers_app_witness:
  "(\<lambda>p. Inr \<lparr>isDirectory = False\<rparr>) ''app'' = Inr \<lparr>isDirectory = False\<rparr> \<and>
   findAppDirectory (\<lambda>p. Inr \<lparr>isDirectory = False\<rparr>) = Inr ''app'' \<and>
   (\<lambda>p. if p = ''src/app'' then Inr \<lparr>isDirectory = False\<rparr> else Inl (IOError ''no such file''))
      ''app'' = Inl (IOError ''no such file'') \<and>
   (\<lambda>p. if p = ''src/app'' then Inr \<lparr>isDirectory = False\<rparr> else Inl (IOError ''no such file''))
      ''src/app'' = Inr \<lparr>isDirectory = False\<rparr> \<and>
   findAppDirectory
     (\<lambda>p. if p = ''src/app'' then Inr \<lparr>isDirectory = False\<rparr> else Inl (IOError ''no such file''))
     = Inr ''src/app'' \<and>
   (\<exists>e. (\<lambda>p. if p = ''src/app'' then Inr \<lparr>isDirectory = False\<rparr> else Inl (IOError ''no such file''))
      ''app'' = Inl e) \<and>
   (\<lambda>p. Inl (IOError ''no such file'') :: io_error + file_info) ''app'' = Inl (IOError ''no such file'') \<and>
   (\<lambda>p. Inl (IOError ''no such file'') :: io_error + file_info) ''src/app'' = Inl (IOError ''no such file'') \<and>
   (\<exists>msg. findAppDirectory (\<lambda>p. Inl (IOError ''no such file'')) = Inl msg)"
proof -
  let ?both = "\<lambda>p :: string. Inr \<lparr>isDirectory = False\<rparr> :: io_error + file_info"
  let ?src = "\<lambda>p. if p = ''src/app'' then Inr \<lparr>isDirectory = False\<rparr> else Inl (IOError ''no such file'')"
  let ?none = "\<lambda>p :: string. Inl (IOError ''no such file'') :: io_error + file_info"
  have a: "?both ''app'' = Inr \<lparr>isDirectory = False\<rparr>" by simp
  have b: "?src ''app'' = Inl (IOError ''no such file'') \<and> ?src ''src/app'' = Inr \<lparr>isDirectory = False\<rparr>"
    by simp
  have n: "?none ''app'' = Inl (IOError ''no such file'') \<and> ?none ''src/app'' = Inl (IOError ''no such file'')"
    by simp
  note c1 = findAppDirectory_prefers_app [of ?both "\<lparr>isDirectory = False\<rparr>" "IOError ''x''" "IOError ''x''",
      THEN conjunct1, THEN mp, OF a]
  note T2 = findAppDirectory_prefers_app [of ?src "\<lparr>isDirectory = False\<rparr>" "IOError ''no such file''" "IOError ''x''"]
  note c2 = T2 [THEN conjunct2, THEN conjunct1, THEN mp, OF b]
  note c3 = T2 [THEN conjunct2, THEN conjunct2, THEN conjunct1, THEN mp, OF c2]
  note c4 = findAppDirectory_prefers_app [of ?none "\<lparr>isDirectory = False\<rparr>" "IOError ''no such file''"
      "IOError ''no such file''", THEN conjunct2, THEN conjunct2, THEN conjunct2, THEN mp, OF n]
  from a b n c1 c2 c3 c4 show ?thesis by (simp only: conj_assoc simp_thms)
qed

end
